theory Spec2Isabelle
  imports Complex_Main "HOL-Library.Multiset"
begin

section \<open>Jacobi eigenvalue decomposition of \<open>eigs.js\<close>\<close>

text \<open>
  The embedding follows \<open>src/function/matrix/eigs.js\<close> function by function.
  A native JavaScript number is modelled as a \<^typ>\<open>real\<close>: rounding, \<open>NaN\<close> and the
  infinities are outside the model, so every statement below is about the control flow
  and the algebra of the code on finite numbers. A two-dimensional array is a list of
  rows. The kernel only ever receives arrays that passed the square check of \<open>eigs\<close>;
  \<open>square N x\<close> states it, and the theorems about the kernel assume it, since a read
  outside an array (\<open>undefined\<close> in JavaScript) has no counterpart in the model.
\<close>

subsection \<open>Arrays\<close>

definition square :: "nat \<Rightarrow> 'a list list \<Rightarrow> bool" where
  "square N x = (length x = N \<and> list_all (\<lambda>row. length row = N) x)"

definition symmetric :: "nat \<Rightarrow> 'a list list \<Rightarrow> bool" where
  "symmetric N x = list_all (\<lambda>p. list_all (\<lambda>q. x ! p ! q = x ! q ! p) [0..<N]) [0..<N]"

text \<open>The assignment \<open>M[r][c] = v\<close> on an array of arrays.\<close>

definition assign :: "'a list list \<Rightarrow> nat \<Rightarrow> nat \<Rightarrow> 'a \<Rightarrow> 'a list list" where
  "assign M r c v = M[r := (M ! r)[c := v]]"

text \<open>\<open>xs.splice(i, 1)\<close>: the array without its element at position \<open>i\<close>.\<close>

definition splice1 :: "nat \<Rightarrow> 'a list \<Rightarrow> 'a list" where
  "splice1 i xs = take i xs @ drop (Suc i) xs"

subsection \<open>Pivot selector: \<open>getAij\<close>\<close>

text \<open>
  The body of the inner loop of \<open>getAij\<close>: the state is \<open>(maxIJ, maxMij)\<close>, the
  comparison is the strict \<open>Math.abs(maxMij) < Math.abs(Mij[i][j])\<close>.
\<close>

definition getAij_step ::
  "real list list \<Rightarrow> nat \<Rightarrow> (nat \<times> nat) \<times> real \<Rightarrow> nat \<Rightarrow> (nat \<times> nat) \<times> real" where
  "getAij_step Mij i st j =
     (if \<bar>snd st\<bar> < \<bar>Mij ! i ! j\<bar> then ((i, j), \<bar>Mij ! i ! j\<bar>) else st)"

definition getAij :: "real list list \<Rightarrow> (nat \<times> nat) \<times> real" where
  "getAij Mij =
     (let N = length Mij in
      foldl (\<lambda>st i. foldl (getAij_step Mij i) st [Suc i..<N]) ((0, 1), 0) [0..<N])"

subsection \<open>Rotation angle: \<open>getTheta\<close>\<close>

definition getTheta :: "real \<Rightarrow> real \<Rightarrow> real \<Rightarrow> real" where
  "getTheta aii ajj aij =
     (let denom = ajj - aii in
      if \<bar>denom\<bar> \<le> 1 / 10 ^ 14 then pi / 4
      else 0.5 * arctan (2 * aij / (ajj - aii)))"

subsection \<open>Rotation of the working matrix: \<open>x1\<close>\<close>

text \<open>
  \<open>x1\<close> first reads the new diagonal entries and the two rows \<open>Aki\<close>, \<open>Akj\<close> from the
  matrix as it is, and then writes: four assignments, and a loop of four assignments for
  every \<open>k\<close> other than \<open>i\<close> and \<open>j\<close>.
\<close>

definition x1_write ::
  "nat \<Rightarrow> nat \<Rightarrow> 'a list \<Rightarrow> 'a list \<Rightarrow> 'a list list \<Rightarrow> nat \<Rightarrow> 'a list list" where
  "x1_write i j Aki Akj Hij k =
     (if k \<noteq> i \<and> k \<noteq> j
      then assign (assign (assign (assign Hij i k (Aki ! k)) k i (Aki ! k)) j k (Akj ! k))
             k j (Akj ! k)
      else Hij)"

definition x1 :: "real list list \<Rightarrow> real \<Rightarrow> nat \<Rightarrow> nat \<Rightarrow> real list list" where
  "x1 Hij theta i j =
     (let N = length Hij;
          c = cos theta;
          s = sin theta;
          c2 = c * c;
          s2 = s * s;
          Aii = c2 * Hij ! i ! i - 2 * c * s * Hij ! i ! j + s2 * Hij ! j ! j;
          Ajj = s2 * Hij ! i ! i + 2 * c * s * Hij ! i ! j + c2 * Hij ! j ! j;
          Aki = map (\<lambda>k. c * Hij ! i ! k - s * Hij ! j ! k) [0..<N];
          Akj = map (\<lambda>k. s * Hij ! i ! k + c * Hij ! j ! k) [0..<N];
          H1 = assign Hij i i Aii;
          H2 = assign H1 j j Ajj;
          H3 = assign H2 i j 0;
          H4 = assign H3 j i 0
      in foldl (x1_write i j Aki Akj) H4 [0..<N])"

subsection \<open>Rotation of the accumulated transform: \<open>Sij1\<close>\<close>

definition Sij1_write :: "nat \<Rightarrow> nat \<Rightarrow> 'a list \<Rightarrow> 'a list \<Rightarrow> 'a list list \<Rightarrow> nat \<Rightarrow> 'a list list" where
  "Sij1_write i j Ski Skj Sij k = assign (assign Sij k i (Ski ! k)) k j (Skj ! k)"

definition Sij1 :: "real list list \<Rightarrow> real \<Rightarrow> nat \<Rightarrow> nat \<Rightarrow> real list list" where
  "Sij1 Sij theta i j =
     (let N = length Sij;
          c = cos theta;
          s = sin theta;
          Ski = map (\<lambda>k. c * Sij ! k ! i - s * Sij ! k ! j) [0..<N];
          Skj = map (\<lambda>k. s * Sij ! k ! i + c * Sij ! k ! j) [0..<N]
      in foldl (Sij1_write i j Ski Skj) Sij [0..<N])"

subsection \<open>Spectrum sorter: \<open>sorting\<close>\<close>

text \<open>
  The inner loop of \<open>sorting\<close> keeps \<open>(minID, minE)\<close> and replaces it at every \<open>j\<close>
  with \<open>E[j] < minE\<close>. The comparison \<open>lt\<close> stands for the JavaScript operator \<open><\<close> on
  the elements; on native numbers it is the order of the reals.
\<close>

definition sorting_min :: "('a \<Rightarrow> 'a \<Rightarrow> bool) \<Rightarrow> 'a list \<Rightarrow> nat \<times> 'a" where
  "sorting_min lt E =
     foldl (\<lambda>st j. if lt (E ! j) (snd st) then (j, E ! j) else st) (0, E ! 0) [0..<length E]"

text \<open>
  One round of the outer loop removes the entry at \<open>minID\<close> from \<open>E\<close> and from each of
  the first \<open>N\<close> rows of \<open>S\<close> and stores them at position \<open>i\<close> of \<open>Ef\<close> and of the rows
  of \<open>Sf\<close>. The rounds run for \<open>i = 0, \<dots>, N - 1\<close>, so position \<open>i\<close> is the end of what
  was stored so far; the first argument counts the rounds that remain.
\<close>

fun sorting_loop ::
  "nat \<Rightarrow> ('a \<Rightarrow> 'a \<Rightarrow> bool) \<Rightarrow> 'a list \<Rightarrow> 's list list \<Rightarrow> 'a list \<Rightarrow> 's list list
     \<Rightarrow> 'a list \<times> 's list list" where
  "sorting_loop 0 lt E S Ef Sf = (Ef, Sf)"
| "sorting_loop (Suc n) lt E S Ef Sf =
     (let minID = fst (sorting_min lt E)
      in sorting_loop n lt (splice1 minID E) (map (splice1 minID) S)
           (Ef @ [E ! minID]) (map2 (\<lambda>row r. row @ [r ! minID]) Sf S))"

definition sorting ::
  "('a \<Rightarrow> 'a \<Rightarrow> bool) \<Rightarrow> 'a list \<Rightarrow> 's list list \<Rightarrow> 'a list \<times> 's list list" where
  "sorting lt E S =
     (let N = length E in sorting_loop N lt E (take N S) [] (replicate N []))"

subsection \<open>Convergence loop: \<open>diag\<close>\<close>

text \<open>
  \<open>e0 = Math.abs(precision / N)\<close>. For \<open>N = 0\<close> the quotient is not a finite number
  (\<open>Infinity\<close>, or \<open>NaN\<close> when \<open>precision\<close> is zero), and the loop test
  \<open>Math.abs(Vab[1]) >= Math.abs(e0)\<close> is false for it; \<open>None\<close> stands for that value.
\<close>

definition diag_e0 :: "real \<Rightarrow> nat \<Rightarrow> real option" where
  "diag_e0 precision N = (if N = 0 then None else Some \<bar>precision / real N\<bar>)"

definition diag_cond :: "real option \<Rightarrow> (nat \<times> nat) \<times> real \<Rightarrow> bool" where
  "diag_cond e0 Vab = (case e0 of None \<Rightarrow> False | Some e \<Rightarrow> \<bar>snd Vab\<bar> \<ge> \<bar>e\<bar>)"

definition identity :: "nat \<Rightarrow> real list list" where
  "identity N = map (\<lambda>i. (replicate N 0)[i := 1]) [0..<N]"

definition diagonal :: "'a list list \<Rightarrow> 'a list" where
  "diagonal x = map (\<lambda>i. x ! i ! i) [0..<length x]"

text \<open>The loop state is \<open>(x, Sij, Vab)\<close>; the body is one rotation at the pivot \<open>Vab[0]\<close>.\<close>

definition diag_body ::
  "real list list \<times> real list list \<times> ((nat \<times> nat) \<times> real)
     \<Rightarrow> real list list \<times> real list list \<times> ((nat \<times> nat) \<times> real)" where
  "diag_body st =
     (case st of (x, Sij, Vab) \<Rightarrow>
        let i = fst (fst Vab);
            j = snd (fst Vab);
            psi = getTheta (x ! i ! i) (x ! j ! j) (x ! i ! j);
            x' = x1 x psi i j;
            Sij' = Sij1 Sij psi i j
        in (x', Sij', getAij x'))"

partial_function (option) diag_while ::
  "real option \<Rightarrow> real list list \<times> real list list \<times> ((nat \<times> nat) \<times> real)
     \<Rightarrow> (real list list \<times> real list list) option" where
  "diag_while e0 st =
     (if diag_cond e0 (snd (snd st)) then diag_while e0 (diag_body st)
      else Some (fst st, fst (snd st)))"

definition diag :: "real list list \<Rightarrow> real \<Rightarrow> (real list \<times> real list list) option" where
  "diag x precision =
     (let N = length x;
          e0 = diag_e0 precision N
      in case diag_while e0 (x, identity N, getAij x) of
           None \<Rightarrow> None
         | Some (x', Sij) \<Rightarrow> Some (sorting (<) (diagonal x') Sij))"

section \<open>The arbitrary-precision path\<close>

text \<open>
  The functions \<open>subtract\<close>, \<open>abs\<close>, \<open>atan\<close>, \<dots> that the factory injects, and the
  classes \<open>BigNumber\<close> and \<open>Fraction\<close>, are not part of \<open>eigs.js\<close>. An element of a
  matrix is a native number, a \<open>BigNumber\<close> or a \<open>Fraction\<close>; the injected functions
  are the fields of a record that the functions of the arbitrary-precision path take as
  their first argument, so a theorem without a hypothesis on that record holds for every
  arithmetic.
\<close>

datatype ('b, 'f) val = is_Num: Num real | is_Big: Big 'b | is_Frac: Frac 'f

record ('b, 'f) provider =
  p_subtract :: "('b, 'f) val \<Rightarrow> ('b, 'f) val \<Rightarrow> ('b, 'f) val"
  p_addScalar :: "('b, 'f) val \<Rightarrow> ('b, 'f) val \<Rightarrow> ('b, 'f) val"
  p_add :: "('b, 'f) val \<Rightarrow> ('b, 'f) val \<Rightarrow> ('b, 'f) val"
  p_multiplyScalar :: "('b, 'f) val \<Rightarrow> ('b, 'f) val \<Rightarrow> ('b, 'f) val"
  p_multiply :: "('b, 'f) val \<Rightarrow> ('b, 'f) val \<Rightarrow> ('b, 'f) val"
  p_abs :: "('b, 'f) val \<Rightarrow> ('b, 'f) val"
  p_atan :: "('b, 'f) val \<Rightarrow> ('b, 'f) val"
  p_cos :: "('b, 'f) val \<Rightarrow> ('b, 'f) val"
  p_sin :: "('b, 'f) val \<Rightarrow> ('b, 'f) val"
  p_inv :: "('b, 'f) val \<Rightarrow> ('b, 'f) val"
  p_bignumber :: "('b, 'f) val \<Rightarrow> ('b, 'f) val"
  p_equal :: "('b, 'f) val \<Rightarrow> ('b, 'f) val \<Rightarrow> bool"
  p_valueOf :: "('b, 'f) val \<Rightarrow> ('b, 'f) val"
  big_toNumber :: "'b \<Rightarrow> real"
  frac_toNumber :: "'f \<Rightarrow> real"
  big_less :: "'b \<Rightarrow> 'b \<Rightarrow> bool"

subsection \<open>The JavaScript relational operators on elements\<close>

text \<open>
  \<open>a < b\<close> converts both operands to primitives. When one of them is a native number
  the other is converted to a number and the comparison is the native one. Two
  \<open>BigNumber\<close> objects are compared through whatever primitives their class returns,
  which is the field \<open>big_less\<close>. Without \<open>NaN\<close>, \<open>a <= b\<close> is \<open>!(b < a)\<close> and
  \<open>a >= b\<close> is \<open>!(a < b)\<close>.
\<close>

definition js_toNumber :: "('b, 'f) provider \<Rightarrow> ('b, 'f) val \<Rightarrow> real" where
  "js_toNumber P v =
     (case v of Num r \<Rightarrow> r | Big b \<Rightarrow> big_toNumber P b | Frac f \<Rightarrow> frac_toNumber P f)"

definition js_lt :: "('b, 'f) provider \<Rightarrow> ('b, 'f) val \<Rightarrow> ('b, 'f) val \<Rightarrow> bool" where
  "js_lt P a b =
     (case (a, b) of
        (Big x, Big y) \<Rightarrow> big_less P x y
      | _ \<Rightarrow> js_toNumber P a < js_toNumber P b)"

definition js_le :: "('b, 'f) provider \<Rightarrow> ('b, 'f) val \<Rightarrow> ('b, 'f) val \<Rightarrow> bool" where
  "js_le P a b = (\<not> js_lt P b a)"

definition js_ge :: "('b, 'f) provider \<Rightarrow> ('b, 'f) val \<Rightarrow> ('b, 'f) val \<Rightarrow> bool" where
  "js_ge P a b = (\<not> js_lt P a b)"

subsection \<open>\<open>getAijBig\<close>, \<open>getThetaBig\<close>, \<open>x1Big\<close>, \<open>Sij1Big\<close>, \<open>diagBig\<close>\<close>

definition getAijBig_step ::
  "('b, 'f) provider \<Rightarrow> ('b, 'f) val list list \<Rightarrow> nat \<Rightarrow> (nat \<times> nat) \<times> ('b, 'f) val \<Rightarrow> nat
     \<Rightarrow> (nat \<times> nat) \<times> ('b, 'f) val" where
  "getAijBig_step P Mij i st j =
     (if js_lt P (p_abs P (snd st)) (p_abs P (Mij ! i ! j))
      then ((i, j), p_abs P (Mij ! i ! j)) else st)"

definition getAijBig ::
  "('b, 'f) provider \<Rightarrow> ('b, 'f) val list list \<Rightarrow> (nat \<times> nat) \<times> ('b, 'f) val" where
  "getAijBig P Mij =
     (let N = length Mij in
      foldl (\<lambda>st i. foldl (getAijBig_step P Mij i) st [Suc i..<N]) ((0, 1), Num 0) [0..<N])"

text \<open>
  The variadic \<open>multiply(a, b, c)\<close> and \<open>add(a, b, c)\<close> of the library fold from the
  left: \<open>multiply(multiply(a, b), c)\<close>.
\<close>

definition getThetaBig ::
  "('b, 'f) provider \<Rightarrow> ('b, 'f) val \<Rightarrow> ('b, 'f) val \<Rightarrow> ('b, 'f) val \<Rightarrow> ('b, 'f) val" where
  "getThetaBig P aii ajj aij =
     (let denom = p_subtract P ajj aii in
      if js_le P (p_abs P denom) (Num (1 / 10 ^ 14)) then Num (pi / 4)
      else p_multiplyScalar P (Num 0.5)
             (p_atan P (p_multiply P (p_multiply P (Num 2) aij) (p_inv P denom))))"

definition x1Big ::
  "('b, 'f) provider \<Rightarrow> ('b, 'f) val list list \<Rightarrow> ('b, 'f) val \<Rightarrow> nat \<Rightarrow> nat
     \<Rightarrow> ('b, 'f) val list list" where
  "x1Big P Hij theta i j =
     (let N = length Hij;
          c = p_bignumber P (p_cos P theta);
          s = p_bignumber P (p_sin P theta);
          c2 = p_multiplyScalar P c c;
          s2 = p_multiplyScalar P s s;
          csHij = p_multiply P (p_multiply P (p_multiply P (Num 2) c) s) (Hij ! i ! j);
          Aii = p_addScalar P (p_subtract P (p_multiplyScalar P c2 (Hij ! i ! i)) csHij)
                  (p_multiplyScalar P s2 (Hij ! j ! j));
          Ajj = p_add P (p_add P (p_multiplyScalar P s2 (Hij ! i ! i)) csHij)
                  (p_multiplyScalar P c2 (Hij ! j ! j));
          Aki = map (\<lambda>k. p_subtract P (p_multiplyScalar P c (Hij ! i ! k))
                            (p_multiplyScalar P s (Hij ! j ! k))) [0..<N];
          Akj = map (\<lambda>k. p_addScalar P (p_multiplyScalar P s (Hij ! i ! k))
                            (p_multiplyScalar P c (Hij ! j ! k))) [0..<N];
          H1 = assign Hij i i Aii;
          H2 = assign H1 j j Ajj;
          H3 = assign H2 i j (Num 0);
          H4 = assign H3 j i (Num 0)
      in foldl (x1_write i j Aki Akj) H4 [0..<N])"

text \<open>
  The functions of the library are total in the model. When one of them gets a native
  number and a \<open>BigNumber\<close>, the library first turns the number into a \<open>BigNumber\<close>,
  and throws a \<open>TypeError\<close> when the number has more than 15 significant digits.
  \<open>Sij1Big\<close> does not convert its \<open>cos\<close> and \<open>sin\<close> with \<open>bignumber\<close> as \<open>x1Big\<close> does, so
  its products can be such calls, of a native \<open>cos(pi / 4)\<close> with a \<open>BigNumber\<close> entry of
  \<open>Sij\<close> or of a \<open>BigNumber\<close> cosine with a native entry. That exit of \<open>Sij1Big\<close>, and
  through it of the loop of \<open>diagBig\<close>, is not part of the model: where the library
  throws, the model goes on with the result of the arithmetic.
\<close>

definition Sij1Big ::
  "('b, 'f) provider \<Rightarrow> ('b, 'f) val list list \<Rightarrow> ('b, 'f) val \<Rightarrow> nat \<Rightarrow> nat
     \<Rightarrow> ('b, 'f) val list list" where
  "Sij1Big P Sij theta i j =
     (let N = length Sij;
          c = p_cos P theta;
          s = p_sin P theta;
          Ski = map (\<lambda>k. p_subtract P (p_multiplyScalar P c (Sij ! k ! i))
                            (p_multiplyScalar P s (Sij ! k ! j))) [0..<N];
          Skj = map (\<lambda>k. p_addScalar P (p_multiplyScalar P s (Sij ! k ! i))
                            (p_multiplyScalar P c (Sij ! k ! j))) [0..<N]
      in foldl (Sij1_write i j Ski Skj) Sij [0..<N])"

text \<open>
  In \<open>diagBig\<close> the tolerance is \<open>abs(precision / N)\<close> with the library's \<open>abs\<close>; as in
  \<open>diag\<close>, \<open>None\<close> stands for the quotient by \<open>N = 0\<close>.
\<close>

definition diagBig_e0 :: "('b, 'f) provider \<Rightarrow> real \<Rightarrow> nat \<Rightarrow> ('b, 'f) val option" where
  "diagBig_e0 P precision N =
     (if N = 0 then None else Some (p_abs P (Num (precision / real N))))"

definition diagBig_cond ::
  "('b, 'f) provider \<Rightarrow> ('b, 'f) val option \<Rightarrow> (nat \<times> nat) \<times> ('b, 'f) val \<Rightarrow> bool" where
  "diagBig_cond P e0 Vab =
     (case e0 of None \<Rightarrow> False | Some e \<Rightarrow> js_ge P (p_abs P (snd Vab)) (p_abs P e))"

definition identityBig :: "nat \<Rightarrow> ('b, 'f) val list list" where
  "identityBig N = map (\<lambda>i. (replicate N (Num 0))[i := Num 1]) [0..<N]"

definition diagBig_body ::
  "('b, 'f) provider
     \<Rightarrow> ('b, 'f) val list list \<times> ('b, 'f) val list list \<times> ((nat \<times> nat) \<times> ('b, 'f) val)
     \<Rightarrow> ('b, 'f) val list list \<times> ('b, 'f) val list list \<times> ((nat \<times> nat) \<times> ('b, 'f) val)" where
  "diagBig_body P st =
     (case st of (x, Sij, Vab) \<Rightarrow>
        let i = fst (fst Vab);
            j = snd (fst Vab);
            psi = getThetaBig P (x ! i ! i) (x ! j ! j) (x ! i ! j);
            x' = x1Big P x psi i j;
            Sij' = Sij1Big P Sij psi i j
        in (x', Sij', getAijBig P x'))"

partial_function (option) diagBig_while ::
  "('b, 'f) provider \<Rightarrow> ('b, 'f) val option
     \<Rightarrow> ('b, 'f) val list list \<times> ('b, 'f) val list list \<times> ((nat \<times> nat) \<times> ('b, 'f) val)
     \<Rightarrow> (('b, 'f) val list list \<times> ('b, 'f) val list list) option" where
  "diagBig_while P e0 st =
     (if diagBig_cond P e0 (snd (snd st)) then diagBig_while P e0 (diagBig_body P st)
      else Some (fst st, fst (snd st)))"

definition diagBig ::
  "('b, 'f) provider \<Rightarrow> ('b, 'f) val list list \<Rightarrow> real
     \<Rightarrow> (('b, 'f) val list \<times> ('b, 'f) val list list) option" where
  "diagBig P x precision =
     (let N = length x;
          e0 = diagBig_e0 P precision N
      in case diagBig_while P e0 (x, identityBig N, getAijBig P x) of
           None \<Rightarrow> None
         | Some (x', Sij) \<Rightarrow> Some (sorting (js_lt P) (diagonal x') Sij))"

section \<open>Validation and dispatch: \<open>isSymmetric\<close>, \<open>checkAndSubmit\<close>, \<open>eigs\<close>\<close>

datatype error = RangeError string | TypeError string | DimensionError string

subsection \<open>The matrix object and the store of row arrays\<close>

text \<open>
  \<open>checkAndSubmit\<close> writes into an array that it got from \<open>x.toArray()\<close> and then
  calls \<open>x.toArray()\<close> again, so what it does depends on which arrays are shared. The
  store is the list of all row arrays, a row's address is its position in the store, and
  a two-dimensional array is the list of the addresses of its rows.
  The matrix class is not part of \<open>eigs.js\<close>; a matrix object is the record of what its
  methods \<open>size()\<close>, \<open>datatype()\<close> (\<open>None\<close> for \<open>undefined\<close>) and \<open>getDataType()\<close>
  return, and of the rows that hold its data.
\<close>

type_synonym ('b, 'f) store = "('b, 'f) val list list"

record matrix_obj =
  mx_size :: "nat list"
  mx_datatype :: "string option"
  mx_getDataType :: string
  mx_data :: "nat list"

definition deref :: "('b, 'f) store \<Rightarrow> nat list \<Rightarrow> ('b, 'f) val list list" where
  "deref h arr = map (\<lambda>r. h ! r) arr"

text \<open>
  Modelled from the spec: the method \<open>toArray\<close> of the matrix class is missing from the
  sources. The spec gives it as \<open>toArray() -> mutable 2D buffer of element family F\<close>
  that supplies the working data, where each call allocates its own buffers: the rows
  of the matrix are copied to new addresses at the end of the store.
\<close>

definition toArray :: "('b, 'f) store \<Rightarrow> matrix_obj \<Rightarrow> nat list \<times> ('b, 'f) store" where
  "toArray h x =
     (let a = length h
      in ([a..<a + length (mx_data x)], h @ map (\<lambda>r. h ! r) (mx_data x)))"

text \<open>The assignment \<open>arr[i][j] = v\<close> on an array whose rows are in the store.\<close>

definition store_assign ::
  "('b, 'f) store \<Rightarrow> nat list \<Rightarrow> nat \<Rightarrow> nat \<Rightarrow> ('b, 'f) val \<Rightarrow> ('b, 'f) store" where
  "store_assign h arr i j v = h[arr ! i := (h ! (arr ! i))[j := v]]"

subsection \<open>\<open>isSymmetric\<close>\<close>

text \<open>
  The two loops visit the pairs \<open>(i, j)\<close> with \<open>i \<le> j < n\<close> row by row and throw at the
  first pair for which \<open>equal(x[i][j], x[j][i])\<close> is false.
\<close>

definition isSymmetric_pairs :: "nat \<Rightarrow> (nat \<times> nat) list" where
  "isSymmetric_pairs n = concat (map (\<lambda>i. map (Pair i) [i..<n]) [0..<n])"

fun isSymmetric_loop ::
  "('b, 'f) provider \<Rightarrow> ('b, 'f) val list list \<Rightarrow> (nat \<times> nat) list \<Rightarrow> error + unit" where
  "isSymmetric_loop P x [] = Inr ()"
| "isSymmetric_loop P x (p # ps) =
     (if \<not> p_equal P (x ! fst p ! snd p) (x ! snd p ! fst p)
      then Inl (TypeError ''Input matrix is not symmetric'')
      else isSymmetric_loop P x ps)"

definition isSymmetric ::
  "('b, 'f) provider \<Rightarrow> ('b, 'f) val list list \<Rightarrow> nat \<Rightarrow> error + unit" where
  "isSymmetric P x n = isSymmetric_loop P x (isSymmetric_pairs n)"

subsection \<open>\<open>checkAndSubmit\<close>\<close>

text \<open>
  The loop of the \<open>Fraction\<close> branch:
  \<open>xArr[i][j] = xArr[i][j].valueOf(); xArr[j][i] = xArr[i][j]\<close> for \<open>i \<le> j < n\<close>.
\<close>

definition convert_step ::
  "('b, 'f) provider \<Rightarrow> nat list \<Rightarrow> nat \<Rightarrow> ('b, 'f) store \<Rightarrow> nat \<Rightarrow> ('b, 'f) store" where
  "convert_step P xArr i h j =
     (let h1 = store_assign h xArr i j (p_valueOf P (h ! (xArr ! i) ! j))
      in store_assign h1 xArr j i (h1 ! (xArr ! i) ! j))"

definition convert ::
  "('b, 'f) provider \<Rightarrow> nat list \<Rightarrow> nat \<Rightarrow> ('b, 'f) store \<Rightarrow> ('b, 'f) store" where
  "convert P xArr n h = foldl (\<lambda>h i. foldl (convert_step P xArr i) h [i..<n]) h [0..<n]"

text \<open>
  \<open>checkAndSubmit\<close> ends in a call of \<open>diag\<close> or of \<open>diagBig\<close>. \<open>checkAndSubmit_call\<close> is
  the function up to that call: it returns which of the two is called, the contents of
  the array that is passed, and the store.
\<close>

datatype ('b, 'f) submission =
  Diag "('b, 'f) val list list" | DiagBig "('b, 'f) val list list"

definition checkAndSubmit_call ::
  "('b, 'f) provider \<Rightarrow> ('b, 'f) store \<Rightarrow> matrix_obj \<Rightarrow> nat
     \<Rightarrow> error + (('b, 'f) submission \<times> ('b, 'f) store)" where
  "checkAndSubmit_call P h x n =
     (let type = (case mx_datatype x of None \<Rightarrow> mx_getDataType x | Some t \<Rightarrow> t)
      in if type \<noteq> ''number'' \<and> type \<noteq> ''BigNumber'' \<and> type \<noteq> ''Fraction''
         then (if type = ''mixed''
               then Inl (TypeError ''Mixed matrix element type is not supported'')
               else Inl (TypeError (''Matrix element type not supported ('' @ type @ '')'')))
         else
           (let (a0, h0) = toArray h x
            in case isSymmetric P (deref h0 a0) n of
                 Inl e \<Rightarrow> Inl e
               | Inr u \<Rightarrow>
                   if type = ''number''
                   then (let (a1, h1) = toArray h0 x in Inr (Diag (deref h1 a1), h1))
                   else if type = ''Fraction''
                   then (let (xArr, h1) = toArray h0 x;
                             h2 = convert P xArr n h1;
                             (a3, h3) = toArray h2 x
                         in Inr (Diag (deref h3 a3), h3))
                   else (let (a1, h1) = toArray h0 x in Inr (DiagBig (deref h1 a1), h1))))"

text \<open>
  The operators of \<open>diag\<close> are the native ones; they read an element that is an object
  through its conversion to a number, so \<open>diag\<close> is run on the numbers of the elements
  and its result is given as numbers (an entry of the result that \<open>diag\<close> only copied
  from its argument is, in JavaScript, the object itself; the model gives its number).
  Both kernels are called without a second argument, so \<open>precision\<close> has its default
  \<open>1E-12\<close>. \<open>None\<close> is a call that does not return.
\<close>

definition precision_default :: real where
  "precision_default = 1 / 10 ^ 12"

definition checkAndSubmit ::
  "('b, 'f) provider \<Rightarrow> ('b, 'f) store \<Rightarrow> matrix_obj \<Rightarrow> nat
     \<Rightarrow> (error + (('b, 'f) val list \<times> ('b, 'f) val list list)) option" where
  "checkAndSubmit P h x n =
     (case checkAndSubmit_call P h x n of
        Inl e \<Rightarrow> Some (Inl e)
      | Inr (Diag d, h') \<Rightarrow>
          (case diag (map (map (js_toNumber P)) d) precision_default of
             None \<Rightarrow> None
           | Some (E, S) \<Rightarrow> Some (Inr (map Num E, map (map Num) S)))
      | Inr (DiagBig d, h') \<Rightarrow>
          (case diagBig P d precision_default of
             None \<Rightarrow> None
           | Some ans \<Rightarrow> Some (Inr ans)))"

subsection \<open>\<open>eigs\<close>\<close>

text \<open>
  The two signatures of \<open>eigs\<close>. \<open>format\<close> (of \<open>utils/string\<close>) and the constructor
  \<open>matrix\<close> are not part of \<open>eigs.js\<close> and are parameters; \<open>matrix\<close> may throw, as it
  does on an array whose rows differ in length.
\<close>

definition eigs_Matrix ::
  "('b, 'f) provider \<Rightarrow> (nat list \<Rightarrow> string) \<Rightarrow> ('b, 'f) store \<Rightarrow> matrix_obj
     \<Rightarrow> (error + (('b, 'f) val list \<times> ('b, 'f) val list list)) option" where
  "eigs_Matrix P format h x =
     (let size = mx_size x
      in if length size \<noteq> 2 \<or> size ! 0 \<noteq> size ! 1
         then Some (Inl (RangeError (''Matrix must be square '' @ ''(size: '' @ format size @ '')'')))
         else checkAndSubmit P h x (size ! 0))"

definition eigs_Array ::
  "('b, 'f) provider \<Rightarrow> (nat list \<Rightarrow> string) \<Rightarrow> ('a \<Rightarrow> error + matrix_obj \<times> ('b, 'f) store)
     \<Rightarrow> 'a \<Rightarrow> (error + (('b, 'f) val list \<times> ('b, 'f) val list list)) option" where
  "eigs_Array P format matrix x =
     (case matrix x of
        Inl e \<Rightarrow> Some (Inl e)
      | Inr (mat, h) \<Rightarrow>
          (let size = mx_size mat
           in if length size \<noteq> 2 \<or> size ! 0 \<noteq> size ! 1
              then Some (Inl (RangeError
                     (''Matrix must be square '' @ ''(size: '' @ format size @ '')'')))
              else checkAndSubmit P h mat (size ! 0)))"

section \<open>Notions of the statements\<close>

text \<open>
  The pairs of the strict upper triangle in the order of the scan, and the order of the
  scan on pairs (row by row).
\<close>

definition upper_pairs :: "nat \<Rightarrow> nat \<Rightarrow> (nat \<times> nat) list" where
  "upper_pairs a N = concat (map (\<lambda>i. map (Pair i) [Suc i..<N]) [a..<N])"

definition scan_lt :: "nat \<times> nat \<Rightarrow> nat \<times> nat \<Rightarrow> bool" where
  "scan_lt p q = (fst p < fst q \<or> (fst p = fst q \<and> snd p < snd q))"

text \<open>
  The magnitude of an element as a number: the number behind what the library's \<open>abs\<close>
  returns.
\<close>

definition mag :: "('b, 'f) provider \<Rightarrow> ('b, 'f) val \<Rightarrow> real" where
  "mag P v = js_toNumber P (p_abs P v)"

text \<open>
  The maximal off-diagonal magnitude of a working matrix: the greatest magnitude in the
  strict upper triangle, and zero when the triangle is empty.
\<close>

definition maxOffDiag :: "real list list \<Rightarrow> real" where
  "maxOffDiag x = Max (set (0 # map (\<lambda>p. \<bar>x ! fst p ! snd p\<bar>) (upper_pairs 0 (length x))))"

definition maxOffDiagBig :: "('b, 'f) provider \<Rightarrow> ('b, 'f) val list list \<Rightarrow> real" where
  "maxOffDiagBig P x =
     Max (set (0 # map (\<lambda>p. mag P (x ! fst p ! snd p)) (upper_pairs 0 (length x))))"

text \<open>
  The element type that \<open>checkAndSubmit\<close> tests, and the condition that the rows of a
  matrix are in the store.
\<close>

definition matrix_type :: "matrix_obj \<Rightarrow> string" where
  "matrix_type x = (case mx_datatype x of None \<Rightarrow> mx_getDataType x | Some t \<Rightarrow> t)"

definition valid_rows :: "('b, 'f) store \<Rightarrow> matrix_obj \<Rightarrow> bool" where
  "valid_rows h x = list_all (\<lambda>r. r < length h) (mx_data x)"

text \<open>
  A comparison that orders the elements by a key in a linear order: the native \<open><\<close> on
  numbers is one (the key is the number).
\<close>

definition key_lt :: "('a \<Rightarrow> 'k :: linorder) \<Rightarrow> 'a \<Rightarrow> 'a \<Rightarrow> bool" where
  "key_lt key a b = (key a < key b)"

text \<open>
  The positions of \<open>E\<close> in the order of their keys, equal keys in the order of their
  positions (\<open>sort_key\<close> is the stable insertion sort of the library).
\<close>

definition sorted_positions :: "('a \<Rightarrow> 'k :: linorder) \<Rightarrow> 'a list \<Rightarrow> nat list" where
  "sorted_positions key E = sort_key (\<lambda>j. key (E ! j)) [0..<length E]"

text \<open>
  The positions that \<open>sorting\<close> extracts, round by round: \<open>R\<close> are the positions of the
  input that remain, \<open>Q\<close> those extracted so far, \<open>g\<close> gives the value at a position.
\<close>

fun selection ::
  "nat \<Rightarrow> ('a \<Rightarrow> 'a \<Rightarrow> bool) \<Rightarrow> (nat \<Rightarrow> 'a) \<Rightarrow> nat list \<Rightarrow> nat list \<Rightarrow> nat list" where
  "selection 0 lt g R Q = Q"
| "selection (Suc n) lt g R Q =
     (let m = fst (sorting_min lt (map g R)) in selection n lt g (splice1 m R) (Q @ [R ! m]))"

text \<open>
  Modelled from the spec: the injected arithmetic is missing from the sources. The spec
  gives it as the Arithmetic Provider that supplies add, subtract, multiply,
  divide/inverse, absolute value, equality and sin, cos, atan for one numeric family.
  \<open>exact_provider\<close> is that provider with exact arithmetic on the number behind an
  element; a result is a \<open>BigNumber\<close> as soon as an argument is one. It is the
  arithmetic at which the theorems with a hypothesis on the arithmetic are instantiated.
\<close>

definition exact_value :: "(real, rat) val \<Rightarrow> real" where
  "exact_value v = (case v of Num r \<Rightarrow> r | Big b \<Rightarrow> b | Frac f \<Rightarrow> of_rat f)"

definition exact1 :: "(real \<Rightarrow> real) \<Rightarrow> (real, rat) val \<Rightarrow> (real, rat) val" where
  "exact1 g a = (case a of Big b \<Rightarrow> Big (g b) | _ \<Rightarrow> Num (g (exact_value a)))"

definition exact2 ::
  "(real \<Rightarrow> real \<Rightarrow> real) \<Rightarrow> (real, rat) val \<Rightarrow> (real, rat) val \<Rightarrow> (real, rat) val" where
  "exact2 g a b =
     (if is_Big a \<or> is_Big b then Big (g (exact_value a) (exact_value b))
      else Num (g (exact_value a) (exact_value b)))"

definition exact_provider :: "(real, rat) provider" where
  "exact_provider =
     \<lparr>p_subtract = exact2 (-), p_addScalar = exact2 (+), p_add = exact2 (+),
      p_multiplyScalar = exact2 (\<lambda>a b. a * b), p_multiply = exact2 (\<lambda>a b. a * b),
      p_abs = exact1 abs, p_atan = exact1 arctan, p_cos = exact1 cos, p_sin = exact1 sin,
      p_inv = exact1 inverse, p_bignumber = (\<lambda>a. Big (exact_value a)),
      p_equal = (\<lambda>a b. exact_value a = exact_value b),
      p_valueOf = (\<lambda>a. Num (exact_value a)),
      big_toNumber = (\<lambda>b. b), frac_toNumber = of_rat, big_less = (<)\<rparr>"

subsection \<open>The relational operators on two \<open>BigNumber\<close> objects\<close>

text \<open>
  The class \<open>BigNumber\<close> is not part of \<open>eigs.js\<close>: it is the class \<open>Decimal\<close> of
  \<open>decimal.js\<close>, which the library configures. Its \<open>valueOf()\<close> returns the value as a
  string, so the native \<open><\<close> of \<open>getAijBig\<close> and of \<open>sorting\<close>, applied to two
  \<open>BigNumber\<close> objects, compares two strings: by their code units from the left, the
  first difference deciding, a proper prefix being the smaller.
\<close>

fun js_string_less :: "string \<Rightarrow> string \<Rightarrow> bool" where
  "js_string_less xs [] = False"
| "js_string_less [] (y # ys) = True"
| "js_string_less (x # xs) (y # ys) =
     ((of_char x :: nat) < of_char y \<or> (x = y \<and> js_string_less xs ys))"

text \<open>
  The string of a value: its decimal digits, in exponential notation when the exponent
  of the first significant digit is at most \<open>-7\<close> or at least \<open>21\<close> (the defaults
  \<open>toExpNeg\<close> and \<open>toExpPos\<close> of the class), as in \<open>9e-14\<close>, \<open>1.5e+21\<close>, \<open>0.05\<close>,
  \<open>12.5\<close> and \<open>10\<close>. \<open>fraction_digits\<close> counts the digits after the decimal point; it
  stops after 400, so that \<open>big_valueOf\<close> is the string of the class for the values with a
  finite decimal expansion of at most 400 fractional digits.
\<close>

fun decimal_digits :: "nat \<Rightarrow> string" where
  "decimal_digits n =
     (if n < 10 then [''0123456789'' ! n]
      else decimal_digits (n div 10) @ [''0123456789'' ! (n mod 10)])"

declare decimal_digits.simps [simp del]

fun fraction_digits :: "nat \<Rightarrow> real \<Rightarrow> nat" where
  "fraction_digits 0 b = 0"
| "fraction_digits (Suc f) b =
     (if b = of_int \<lfloor>b\<rfloor> then 0 else Suc (fraction_digits f (b * 10)))"

definition exponential :: "string \<Rightarrow> int \<Rightarrow> string" where
  "exponential ds e =
     (let ms = rev (dropWhile (\<lambda>c. c = CHR ''0'') (rev ds))
      in hd ms # (if tl ms = [] then [] else CHR ''.'' # tl ms) @ ''e'' @
           (if e < 0 then ''-'' else ''+'') @ decimal_digits (nat \<bar>e\<bar>))"

definition fixed_point :: "string \<Rightarrow> nat \<Rightarrow> string" where
  "fixed_point ds k =
     (if k = 0 then ds
      else if k < length ds then take (length ds - k) ds @ ''.'' @ drop (length ds - k) ds
      else ''0.'' @ replicate (k - length ds) CHR ''0'' @ ds)"

definition big_valueOf :: "real \<Rightarrow> string" where
  "big_valueOf b =
     (let a = \<bar>b\<bar>;
          k = fraction_digits 400 a;
          ds = decimal_digits (nat \<lfloor>a * 10 ^ k\<rfloor>);
          e = int (length ds) - 1 - int k;
          str = (if e \<le> - 7 \<or> 21 \<le> e then exponential ds e else fixed_point ds k)
      in if b < 0 then CHR ''-'' # str else str)"

text \<open>
  \<open>decimal_provider\<close> is \<open>exact_provider\<close> with that comparison of two \<open>BigNumber\<close>
  objects. A \<open>BigNumber\<close> and a native number are compared as numbers, which \<open>js_lt\<close>
  does for every arithmetic.
\<close>

definition decimal_provider :: "(real, rat) provider" where
  "decimal_provider =
     exact_provider \<lparr>big_less := (\<lambda>x y. js_string_less (big_valueOf x) (big_valueOf y))\<rparr>"

section \<open>Two \<open>BigNumber\<close> objects under the native comparison\<close>

text \<open>Rules that evaluate the strings and their order at numerals.\<close>

lemma decimal_digits_numeral:
  "decimal_digits (numeral k) =
     (if (numeral k :: nat) < 10 then [''0123456789'' ! numeral k]
      else decimal_digits (numeral k div 10) @ [''0123456789'' ! (numeral k mod 10)])"
  "decimal_digits 0 = ''0''" "decimal_digits (Suc 0) = ''1''"
  by (simp_all add: decimal_digits.simps [of "numeral k"] decimal_digits.simps [of 0]
      decimal_digits.simps [of "Suc 0"])

lemma fraction_digits_int: "0 < f \<Longrightarrow> b = of_int \<lfloor>b\<rfloor> \<Longrightarrow> fraction_digits f b = 0"
  by (cases f) simp_all

lemma fraction_digits_step:
  "0 < f \<Longrightarrow> b \<noteq> of_int \<lfloor>b\<rfloor>
     \<Longrightarrow> fraction_digits f b = Suc (fraction_digits (f - 1) (b * 10))"
  by (cases f) simp_all

lemmas valueOf_simps = big_valueOf_def Let_def fraction_digits_int fraction_digits_step
  decimal_digits_numeral fixed_point_def exponential_def

lemma big_valueOf_ex:
  "big_valueOf 0 = ''0''" "big_valueOf 1 = ''1''" "big_valueOf 2 = ''2''" "big_valueOf 3 = ''3''"
  "big_valueOf 5 = ''5''" "big_valueOf 9 = ''9''" "big_valueOf 10 = ''10''"
  "big_valueOf (9 / 100000000000000) = ''9e-14''"
  by (simp_all add: valueOf_simps)

lemma big_valueOf_notation:
  "big_valueOf (1 / 2) = ''0.5''" "big_valueOf (25 / 2) = ''12.5''"
  "big_valueOf (- 3) = ''-3''" "big_valueOf (1 / 10 ^ 6) = ''0.000001''"
  "big_valueOf (1 / 10 ^ 7) = ''1e-7''" "big_valueOf (15 / 10 ^ 11) = ''1.5e-10''"
  "big_valueOf (10 ^ 21) = ''1e+21''"
  by (simp_all add: valueOf_simps)

lemmas decimal_simps = decimal_provider_def exact_provider_def exact1_def exact2_def
  exact_value_def js_lt_def js_ge_def js_le_def js_toNumber_def big_valueOf_ex

text \<open>
  \<open>9 < 10\<close> is false for two \<open>BigNumber\<close> objects, as \<open>"9" < "10"\<close> is, and true as soon
  as one of the two is a native number.
\<close>

lemma decimal_less_ex:
  "js_lt decimal_provider (Big 9) (Big 10) = False"
  "js_lt decimal_provider (Big 10) (Big 9) = True"
  "js_lt decimal_provider (Num 9) (Big 10) = True"
  "js_lt decimal_provider (Big 9) (Num 10) = True"
  by (simp_all add: decimal_simps)

section \<open>The pivot selector returns the first maximum of the scan\<close>

lemma foldl_concat: "foldl f a (concat xss) = foldl (foldl f) a xss"
  by (induction xss arbitrary: a) simp_all

lemma getAij_flat:
  "getAij M = foldl (\<lambda>st p. getAij_step M (fst p) st (snd p)) ((0, 1), 0) (upper_pairs 0 (length M))"
  by (simp add: getAij_def upper_pairs_def foldl_concat foldl_map Let_def)

lemma getAijBig_flat:
  "getAijBig P M = foldl (\<lambda>st p. getAijBig_step P M (fst p) st (snd p)) ((0, 1), Num 0)
     (upper_pairs 0 (length M))"
  by (simp add: getAijBig_def upper_pairs_def foldl_concat foldl_map Let_def)

lemma set_upper_pairs: "set (upper_pairs a N) = {(p, q). a \<le> p \<and> p < q \<and> q < N}"
  by (force simp: upper_pairs_def)

lemma sorted_upper_pairs: "sorted_wrt scan_lt (upper_pairs a N)"
proof (induction "N - a" arbitrary: a)
  case 0
  then show ?case by (simp add: upper_pairs_def)
next
  case (Suc d)
  then have lt: "a < N" by simp
  have split: "upper_pairs a N = map (Pair a) [Suc a..<N] @ upper_pairs (Suc a) N"
    using lt by (simp add: upper_pairs_def upt_conv_Cons)
  have s1: "sorted_wrt scan_lt (map (Pair a) [Suc a..<N])"
    by (simp add: sorted_wrt_map scan_lt_def)
  have s2: "sorted_wrt scan_lt (upper_pairs (Suc a) N)"
    using Suc by simp
  show ?case
    unfolding split using s1 s2
    by (auto simp: sorted_wrt_append set_upper_pairs scan_lt_def)
qed

lemma scan_first_max:
  fixes f :: "'p \<Rightarrow> real"
  assumes "foldl (\<lambda>st p. if \<bar>snd st\<bar> < f p then (p, f p) else st) (p0, m0) ps = (p, m)"
    and "0 \<le> m0"
  shows "(\<forall>q \<in> set ps. f q \<le> m) \<and> m0 \<le> m \<and>
         ((p = p0 \<and> m = m0) \<or>
          (\<exists>as bs. ps = as @ p # bs \<and> m = f p \<and> m0 < m \<and> (\<forall>q \<in> set as. f q < m)))"
  using assms
proof (induction ps arbitrary: p m rule: rev_induct)
  case Nil
  then show ?case by simp
next
  case (snoc x xs)
  obtain p' m' where st: "foldl (\<lambda>st p. if \<bar>snd st\<bar> < f p then (p, f p) else st) (p0, m0) xs = (p', m')"
    by (cases "foldl (\<lambda>st p. if \<bar>snd st\<bar> < f p then (p, f p) else st) (p0, m0) xs") auto
  from snoc.IH [OF st snoc.prems(2)]
  have ih: "(\<forall>q \<in> set xs. f q \<le> m')" "m0 \<le> m'"
    "(p' = p0 \<and> m' = m0) \<or>
          (\<exists>as bs. xs = as @ p' # bs \<and> m' = f p' \<and> m0 < m' \<and> (\<forall>q \<in> set as. f q < m'))"
    by auto
  have m'0: "0 \<le> m'" using ih(2) snoc.prems(2) by simp
  show ?case
  proof (cases "m' < f x")
    case True
    then have pm: "p = x" "m = f x" using snoc.prems(1) st m'0 by auto
    have "xs @ [x] = xs @ p # []" using pm by simp
    moreover have "\<forall>q \<in> set xs. f q < m" using ih(1) True pm by fastforce
    moreover have "m0 < m" using ih(2) True pm by simp
    ultimately show ?thesis using pm ih(1) True by fastforce
  next
    case False
    then have pm: "p = p'" "m = m'" using snoc.prems(1) st m'0 by auto
    from ih(3) show ?thesis
    proof
      assume "p' = p0 \<and> m' = m0"
      then show ?thesis using pm ih False by auto
    next
      assume "\<exists>as bs. xs = as @ p' # bs \<and> m' = f p' \<and> m0 < m' \<and> (\<forall>q \<in> set as. f q < m')"
      then obtain as bs where "xs = as @ p' # bs" "m' = f p'" "m0 < m'" "\<forall>q \<in> set as. f q < m'"
        by blast
      then have "xs @ [x] = as @ p # (bs @ [x])" "m = f p" "m0 < m" "\<forall>q \<in> set as. f q < m"
        using pm by auto
      then show ?thesis using pm ih False by fastforce
    qed
  qed
qed

lemma sorted_split_earlier:
  assumes "sorted_wrt scan_lt (as @ p # bs)" "q \<in> set (as @ p # bs)" "scan_lt q p"
  shows "q \<in> set as"
proof (rule ccontr)
  assume "q \<notin> set as"
  then have "q = p \<or> q \<in> set bs" using assms(2) by auto
  moreover have "\<forall>b \<in> set bs. scan_lt p b"
    using assms(1) by (simp add: sorted_wrt_append)
  ultimately show False using assms(3) by (auto simp: scan_lt_def)
qed

text \<open>The scan over the strict upper triangle, for any magnitude \<open>f\<close>.\<close>

lemma scan_upper_max:
  fixes f :: "nat \<times> nat \<Rightarrow> real"
  assumes N: "2 \<le> N" and nonneg: "\<And>q. 0 \<le> f q"
    and fold: "foldl (\<lambda>st p. if \<bar>snd st\<bar> < f p then (p, f p) else st) ((0, 1), 0)
                 (upper_pairs 0 N) = (r, m)"
  shows "fst r < snd r \<and> snd r < N \<and> m = f r \<and>
           (\<forall>p q. p < q \<and> q < N \<longrightarrow> f (p, q) \<le> m) \<and>
           (\<forall>p q. p < q \<and> q < N \<and> scan_lt (p, q) r \<longrightarrow> f (p, q) < m)"
proof -
  define ps where "ps = upper_pairs 0 N"
  have mem: "\<And>p q. (p, q) \<in> set ps \<longleftrightarrow> p < q \<and> q < N"
    by (simp add: ps_def set_upper_pairs)
  from scan_first_max [OF fold]
  have all: "\<forall>q \<in> set ps. f q \<le> m"
    and alt: "(r = (0, 1) \<and> m = 0) \<or>
          (\<exists>as bs. ps = as @ r # bs \<and> m = f r \<and> 0 < m \<and> (\<forall>q \<in> set as. f q < m))"
    by (auto simp: ps_def)
  have le: "\<forall>p q. p < q \<and> q < N \<longrightarrow> f (p, q) \<le> m"
    using all mem by fastforce
  from alt show ?thesis
  proof
    assume a: "r = (0, 1) \<and> m = 0"
    have "(0, 1) \<in> set ps" using N by (simp add: mem)
    then have "f (0, 1) \<le> 0" using all a by blast
    then have "m = f (0, 1)" using a nonneg [of "(0, 1)"] by simp
    moreover have "\<forall>p q. p < q \<and> q < N \<and> scan_lt (p, q) (0, 1) \<longrightarrow> f (p, q) < m"
      by (auto simp: scan_lt_def)
    ultimately show ?thesis using a le N by auto
  next
    assume "\<exists>as bs. ps = as @ r # bs \<and> m = f r \<and> 0 < m \<and> (\<forall>q \<in> set as. f q < m)"
    then obtain as bs where sp: "ps = as @ r # bs" and mf: "m = f r"
      and early: "\<forall>q \<in> set as. f q < m" by blast
    obtain i j where r: "r = (i, j)" by (cases r) auto
    have "(i, j) \<in> set ps" using sp r by simp
    then have ij: "i < j" "j < N" by (simp_all add: mem)
    have srt: "sorted_wrt scan_lt (as @ r # bs)"
      using sorted_upper_pairs [of 0 N] sp by (simp add: ps_def)
    have "\<forall>p q. p < q \<and> q < N \<and> scan_lt (p, q) r \<longrightarrow> f (p, q) < m"
    proof (intro allI impI)
      fix p q assume h: "p < q \<and> q < N \<and> scan_lt (p, q) r"
      then have "(p, q) \<in> set (as @ r # bs)" using mem sp by auto
      then have "(p, q) \<in> set as"
        using sorted_split_earlier [OF srt] h by blast
      then show "f (p, q) < m" using early by fastforce
    qed
    then show ?thesis using r ij mf le by auto
  qed
qed

lemma getAij_max:
  assumes N: "2 \<le> length M" and res: "getAij M = (r, m)"
  shows "fst r < snd r \<and> snd r < length M \<and> m = \<bar>M ! fst r ! snd r\<bar> \<and>
           (\<forall>p q. p < q \<and> q < length M \<longrightarrow> \<bar>M ! p ! q\<bar> \<le> m) \<and>
           (\<forall>p q. p < q \<and> q < length M \<and> scan_lt (p, q) r \<longrightarrow> \<bar>M ! p ! q\<bar> < m)"
proof -
  define f where "f = (\<lambda>p :: nat \<times> nat. \<bar>M ! fst p ! snd p\<bar>)"
  have step: "(\<lambda>st p. getAij_step M (fst p) st (snd p))
                = (\<lambda>st p. if \<bar>snd st\<bar> < f p then (p, f p) else st)"
    by (simp add: getAij_step_def f_def fun_eq_iff)
  have fold: "foldl (\<lambda>st p. if \<bar>snd st\<bar> < f p then (p, f p) else st) ((0, 1), 0)
                (upper_pairs 0 (length M)) = (r, m)"
    using res by (simp add: getAij_flat step)
  have nonneg: "\<And>q. 0 \<le> f q" by (simp add: f_def)
  have "fst r < snd r \<and> snd r < length M \<and> m = f r \<and>
           (\<forall>p q. p < q \<and> q < length M \<longrightarrow> f (p, q) \<le> m) \<and>
           (\<forall>p q. p < q \<and> q < length M \<and> scan_lt (p, q) r \<longrightarrow> f (p, q) < m)"
    by (rule scan_upper_max [OF N nonneg fold])
  then show ?thesis by (auto simp: f_def)
qed

lemma js_toNumber_Num: "js_toNumber P (Num r) = r"
  by (simp add: js_toNumber_def)

lemma upt3: "[0..<3] = [0, 1, 2]" "[Suc 0..<3] = [1, 2]" "[2..<3] = [2]" "[3..<3] = []"
  by (simp_all add: upt_rec)

text \<open>
  On native numbers the selector does what its comment says, \<open>get max off-diagonal value
  from Upper Diagonal\<close>: for an \<open>N \<times> N\<close> matrix with \<open>N \<ge> 2\<close>, \<open>getAij\<close> returns a pair
  \<open>(i, j)\<close> with \<open>i < j < N\<close> and the magnitude of the entry there; no entry of the strict
  upper triangle has a greater magnitude, and every pair that the row-by-row scan visits
  before \<open>(i, j)\<close> has a strictly smaller one, so among equal maxima the earliest is
  returned.
\<close>

lemma getAij_native_first_maximum:
  assumes "square N M" and "2 \<le> N"
  shows "\<exists>i j m. getAij M = ((i, j), m) \<and> i < j \<and> j < N \<and> m = \<bar>M ! i ! j\<bar> \<and>
            (\<forall>p q. p < q \<and> q < N \<longrightarrow> \<bar>M ! p ! q\<bar> \<le> m) \<and>
            (\<forall>p q. p < q \<and> q < N \<and> scan_lt (p, q) (i, j) \<longrightarrow> \<bar>M ! p ! q\<bar> < m)"
proof -
  obtain r m where res: "getAij M = (r, m)" by (cases "getAij M") auto
  have N: "2 \<le> length M" using assms by (simp add: square_def)
  from getAij_max [OF N res] res show ?thesis
    using assms(1) by (cases r) (auto simp: square_def)
qed

text \<open>
  C3. \<open>getAijBig\<close> is the same scan with the library's \<open>abs\<close>, but its test
  \<open>abs(maxMij) < abs(Mij[i][j])\<close> is the native \<open><\<close>, which on two \<open>BigNumber\<close> objects
  compares their strings. On the \<open>BigNumber\<close> matrix \<open>[[0, 9, 10], [9, 0, 1], [10, 1, 0]]\<close>
  the first test, of the number \<open>0.0\<close> against \<open>9\<close>, is numeric and selects \<open>(0, 1)\<close>; the
  second is \<open>"9" < "10"\<close>, which is false, so \<open>getAijBig\<close> returns the pair \<open>(0, 1)\<close> with
  the magnitude \<open>9\<close>, although the entry at \<open>(0, 2)\<close> has the magnitude \<open>10\<close>: it is not
  the entry of the greatest absolute value. On the same numbers \<open>getAij\<close> returns
  \<open>(0, 2)\<close> with \<open>10\<close>.
\<close>

theorem getAijBig_misses_maximum:
  "getAijBig decimal_provider
     [[Big 0, Big 9, Big 10], [Big 9, Big 0, Big 1], [Big 10, Big 1, Big 0]] = ((0, 1), Big 9) \<and>
   mag decimal_provider (Big 9) = 9 \<and> mag decimal_provider (Big 10) = 10 \<and>
   getAij [[0, 9, 10], [9, 0, 1], [10, 1, 0]] = ((0, 2), 10)"
  by (simp add: getAijBig_def getAijBig_step_def getAij_def getAij_step_def upt3 Let_def mag_def
      decimal_simps)

section \<open>One rotation of the working matrix\<close>

lemma square_nth: "square N M \<Longrightarrow> p < N \<Longrightarrow> length (M ! p) = N"
  by (simp add: square_def list_all_length)

lemma square_length: "square N M \<Longrightarrow> length M = N"
  by (simp add: square_def)

lemma square_assign: "square N M \<Longrightarrow> square N (assign M r c v)"
  by (cases "r < length M") (auto simp: square_def assign_def list_all_length nth_list_update)

lemma nth_assign:
  assumes "square N M" "r < N" "c < N" "p < N" "q < N"
  shows "assign M r c v ! p ! q = (if p = r \<and> q = c then v else M ! p ! q)"
  using assms by (auto simp: assign_def nth_list_update square_nth square_length)

lemma symmetric_iff: "symmetric N x \<longleftrightarrow> (\<forall>p < N. \<forall>q < N. x ! p ! q = x ! q ! p)"
  by (auto simp: symmetric_def list_all_iff)

lemma x1_write_square: "square N H \<Longrightarrow> square N (x1_write i j Aki Akj H k)"
  by (simp add: x1_write_def square_assign)

lemma x1_write_nth:
  assumes "square N H" "i < N" "j < N" "k < N" "p < N" "q < N"
  shows "x1_write i j Aki Akj H k ! p ! q =
     (if k = i \<or> k = j then H ! p ! q
      else if p = k \<and> q = j then Akj ! k
      else if p = j \<and> q = k then Akj ! k
      else if p = k \<and> q = i then Aki ! k
      else if p = i \<and> q = k then Aki ! k
      else H ! p ! q)"
proof (cases "k = i \<or> k = j")
  case True
  then show ?thesis by (auto simp: x1_write_def)
next
  case False
  let ?A1 = "assign H i k (Aki ! k)"
  let ?A2 = "assign ?A1 k i (Aki ! k)"
  let ?A3 = "assign ?A2 j k (Akj ! k)"
  let ?A4 = "assign ?A3 k j (Akj ! k)"
  have sq1: "square N ?A1" using assms(1) by (rule square_assign)
  have sq2: "square N ?A2" using sq1 by (rule square_assign)
  have sq3: "square N ?A3" using sq2 by (rule square_assign)
  have e1: "?A1 ! p ! q = (if p = i \<and> q = k then Aki ! k else H ! p ! q)"
    using assms by (intro nth_assign)
  have e2: "?A2 ! p ! q = (if p = k \<and> q = i then Aki ! k else ?A1 ! p ! q)"
    using sq1 assms by (intro nth_assign)
  have e3: "?A3 ! p ! q = (if p = j \<and> q = k then Akj ! k else ?A2 ! p ! q)"
    using sq2 assms by (intro nth_assign)
  have e4: "?A4 ! p ! q = (if p = k \<and> q = j then Akj ! k else ?A3 ! p ! q)"
    using sq3 assms by (intro nth_assign)
  have "x1_write i j Aki Akj H k = ?A4" using False by (simp add: x1_write_def)
  then show ?thesis using False by (simp only: e4 e3 e2 e1 if_False)
qed

lemma swap_chain4:
  "(if a \<and> b then z else if c \<and> d then z else if a \<and> d then y else if c \<and> b then x else h) =
   (if d \<and> c then z else if b \<and> a then z else if d \<and> a then y else if b \<and> c then x else h)"
  by (cases a; cases b; cases c; cases d; simp)

lemma swap_chain5:
  "(if e then h else if a \<and> b then y else if c \<and> d then y else if a \<and> f then x
    else if g \<and> d then x else h) =
   (if e then h else if d \<and> c then y else if b \<and> a then y else if d \<and> g then x
    else if f \<and> a then x else h)"
  by (cases e; cases a; cases b; cases c; cases d; cases f; cases g; simp)

lemma x1_write_symmetric:
  assumes sq: "square N H" and sym: "symmetric N H" and i: "i < N" and j: "j < N" and k: "k < N"
  shows "symmetric N (x1_write i j Aki Akj H k)"
  unfolding symmetric_iff
proof (intro allI impI)
  fix p q assume p: "p < N" and q: "q < N"
  define h where "h = H ! p ! q"
  have H: "H ! p ! q = h" "H ! q ! p = h" using sym p q by (simp_all add: symmetric_iff h_def)
  show "x1_write i j Aki Akj H k ! p ! q = x1_write i j Aki Akj H k ! q ! p"
    unfolding x1_write_nth [OF sq i j k p q] x1_write_nth [OF sq i j k q p] H
    by (rule swap_chain5)
qed

lemma x1_write_pivot:
  assumes sq: "square N H" and i: "i < N" and j: "j < N" and ij: "i \<noteq> j" and k: "k < N"
  shows "x1_write i j Aki Akj H k ! i ! j = H ! i ! j \<and> x1_write i j Aki Akj H k ! j ! i = H ! j ! i"
  unfolding x1_write_nth [OF sq i j k i j] x1_write_nth [OF sq i j k j i]
  using ij by auto

lemma x1_fold:
  assumes sq: "square N H" and i: "i < N" and j: "j < N" and ij: "i \<noteq> j"
    and ks: "set ks \<subseteq> {..<N}"
  shows "square N (foldl (x1_write i j Aki Akj) H ks) \<and>
     foldl (x1_write i j Aki Akj) H ks ! i ! j = H ! i ! j \<and>
     foldl (x1_write i j Aki Akj) H ks ! j ! i = H ! j ! i \<and>
     (symmetric N H \<longrightarrow> symmetric N (foldl (x1_write i j Aki Akj) H ks))"
  using ks
proof (induction ks rule: rev_induct)
  case Nil
  show ?case using sq by simp
next
  case (snoc k ks)
  let ?W = "foldl (x1_write i j Aki Akj) H ks"
  have k: "k < N" and ks: "set ks \<subseteq> {..<N}" using snoc.prems by auto
  have W: "square N ?W" and Wij: "?W ! i ! j = H ! i ! j" and Wji: "?W ! j ! i = H ! j ! i"
    and Wsym: "symmetric N H \<longrightarrow> symmetric N ?W"
    using snoc.IH ks by blast+
  have step: "foldl (x1_write i j Aki Akj) H (ks @ [k]) = x1_write i j Aki Akj ?W k"
    by simp
  show ?case
    unfolding step
    using x1_write_square [OF W] x1_write_pivot [OF W i j ij k] Wij Wji Wsym
      x1_write_symmetric [OF W _ i j k]
    by simp
qed

text \<open>The four assignments before the loop of \<open>x1\<close> and \<open>x1Big\<close>.\<close>

lemma x1_first_nth:
  assumes sq: "square N H" and i: "i < N" and j: "j < N" and p: "p < N" and q: "q < N"
  shows "assign (assign (assign (assign H i i Aii) j j Ajj) i j z) j i z ! p ! q =
     (if p = j \<and> q = i then z else if p = i \<and> q = j then z
      else if p = j \<and> q = j then Ajj else if p = i \<and> q = i then Aii else H ! p ! q)"
proof -
  let ?H1 = "assign H i i Aii"
  let ?H2 = "assign ?H1 j j Ajj"
  let ?H3 = "assign ?H2 i j z"
  have sq1: "square N ?H1" using sq by (rule square_assign)
  have sq2: "square N ?H2" using sq1 by (rule square_assign)
  have sq3: "square N ?H3" using sq2 by (rule square_assign)
  have e1: "?H1 ! p ! q = (if p = i \<and> q = i then Aii else H ! p ! q)"
    using sq i p q by (intro nth_assign)
  have e2: "?H2 ! p ! q = (if p = j \<and> q = j then Ajj else ?H1 ! p ! q)"
    using sq1 j p q by (intro nth_assign)
  have e3: "?H3 ! p ! q = (if p = i \<and> q = j then z else ?H2 ! p ! q)"
    using sq2 i j p q by (intro nth_assign)
  have e4: "assign ?H3 j i z ! p ! q = (if p = j \<and> q = i then z else ?H3 ! p ! q)"
    using sq3 i j p q by (intro nth_assign)
  show ?thesis by (simp only: e4 e3 e2 e1)
qed

lemma x1_first_square:
  assumes sq: "square N H"
  shows "square N (assign (assign (assign (assign H i i Aii) j j Ajj) i j z) j i z)"
  by (intro square_assign sq)

lemma x1_first_symmetric:
  assumes sq: "square N H" and i: "i < N" and j: "j < N" and sym: "symmetric N H"
  shows "symmetric N (assign (assign (assign (assign H i i Aii) j j Ajj) i j z) j i z)"
  unfolding symmetric_iff
proof (intro allI impI)
  fix p q assume p: "p < N" and q: "q < N"
  define h where "h = H ! p ! q"
  have H: "H ! p ! q = h" "H ! q ! p = h" using sym p q by (simp_all add: symmetric_iff h_def)
  show "assign (assign (assign (assign H i i Aii) j j Ajj) i j z) j i z ! p ! q =
        assign (assign (assign (assign H i i Aii) j j Ajj) i j z) j i z ! q ! p"
    unfolding x1_first_nth [OF sq i j p q] x1_first_nth [OF sq i j q p] H
    by (rule swap_chain4)
qed

lemma x1_writes:
  fixes H :: "'a list list" and Aii Ajj z :: 'a and Aki Akj :: "'a list"
  assumes sq: "square N H" and i: "i < N" and j: "j < N" and ij: "i \<noteq> j"
  defines "R \<equiv> foldl (x1_write i j Aki Akj)
           (assign (assign (assign (assign H i i Aii) j j Ajj) i j z) j i z) [0..<N]"
  shows "square N R \<and> R ! i ! j = z \<and> R ! j ! i = z \<and> (symmetric N H \<longrightarrow> symmetric N R)"
proof -
  let ?H4 = "assign (assign (assign (assign H i i Aii) j j Ajj) i j z) j i z"
  have ks: "set [0..<N] \<subseteq> {..<N}" by auto
  have sq4: "square N ?H4" using sq by (rule x1_first_square)
  have ij4: "?H4 ! i ! j = z" using x1_first_nth [OF sq i j i j] ij by simp
  have ji4: "?H4 ! j ! i = z" using x1_first_nth [OF sq i j j i] by simp
  have sym4: "symmetric N H \<longrightarrow> symmetric N ?H4"
    using x1_first_symmetric [OF sq i j] by simp
  from x1_fold [OF sq4 i j ij ks, of Aki Akj]
  have "square N R" and "R ! i ! j = ?H4 ! i ! j" and "R ! j ! i = ?H4 ! j ! i"
    and "symmetric N ?H4 \<longrightarrow> symmetric N R"
    unfolding R_def by simp_all
  then show ?thesis using ij4 ji4 sym4 by simp
qed

lemma x1_rotation:
  assumes "square N H" "i < N" "j < N" "i \<noteq> j"
  shows "square N (x1 H theta i j) \<and> x1 H theta i j ! i ! j = 0 \<and> x1 H theta i j ! j ! i = 0 \<and>
         (symmetric N H \<longrightarrow> symmetric N (x1 H theta i j))"
proof -
  have N: "length H = N" using assms(1) by (rule square_length)
  show ?thesis
    unfolding x1_def Let_def N by (rule x1_writes [OF assms])
qed

lemma x1Big_rotation:
  assumes "square N H" "i < N" "j < N" "i \<noteq> j"
  shows "square N (x1Big P H theta i j) \<and> x1Big P H theta i j ! i ! j = Num 0 \<and>
         x1Big P H theta i j ! j ! i = Num 0 \<and>
         (symmetric N H \<longrightarrow> symmetric N (x1Big P H theta i j))"
proof -
  have N: "length H = N" using assms(1) by (rule square_length)
  show ?thesis
    unfolding x1Big_def Let_def N by (rule x1_writes [OF assms])
qed

section \<open>Symmetry and the annihilated pivot\<close>

lemma scan_pair_range:
  assumes "foldl (\<lambda>st p. if c st p then (p, g p) else st) (p0, m0) ps = (r, m)"
  shows "r = p0 \<or> r \<in> set ps"
  using assms
proof (induction ps arbitrary: r m rule: rev_induct)
  case Nil
  then show ?case by simp
next
  case (snoc x xs)
  obtain r' m' where st: "foldl (\<lambda>st p. if c st p then (p, g p) else st) (p0, m0) xs = (r', m')"
    by (cases "foldl (\<lambda>st p. if c st p then (p, g p) else st) (p0, m0) xs") auto
  from snoc.IH [OF st] snoc.prems st show ?case
    by (auto split: if_splits)
qed

lemma getAijBig_range:
  assumes N: "2 \<le> length M" and res: "getAijBig P M = (r, m)"
  shows "fst r < snd r \<and> snd r < length M"
proof -
  have step: "(\<lambda>st p. getAijBig_step P M (fst p) st (snd p)) =
      (\<lambda>st p. if js_lt P (p_abs P (snd st)) (p_abs P (M ! fst p ! snd p))
               then (p, p_abs P (M ! fst p ! snd p)) else st)"
    by (simp add: getAijBig_step_def fun_eq_iff)
  from res have "r = (0, 1) \<or> r \<in> set (upper_pairs 0 (length M))"
    unfolding getAijBig_flat step by (rule scan_pair_range)
  then show ?thesis using N by (auto simp: set_upper_pairs)
qed

lemma getAij_range:
  assumes N: "2 \<le> length M" and res: "getAij M = (r, m)"
  shows "fst r < snd r \<and> snd r < length M"
  using getAij_max [OF N res] by simp

lemma diag_body_symmetric:
  assumes sq: "square N H" and sym: "symmetric N H" and N: "2 \<le> N"
  shows "square N (fst (diag_body (H, S, getAij H))) \<and>
         symmetric N (fst (diag_body (H, S, getAij H)))"
proof -
  obtain r m where res: "getAij H = (r, m)" by (cases "getAij H") auto
  have len: "length H = N" using sq by (rule square_length)
  have r: "fst r < snd r" "snd r < N" using getAij_range [OF _ res] N len by simp_all
  then have "fst r < N" "fst r \<noteq> snd r" by simp_all
  from x1_rotation [OF sq this(1) r(2) this(2)] sym
  show ?thesis by (simp add: diag_body_def res Let_def)
qed

lemma diagBig_body_symmetric:
  assumes sq: "square N H" and sym: "symmetric N H" and N: "2 \<le> N"
  shows "square N (fst (diagBig_body P (H, S, getAijBig P H))) \<and>
         symmetric N (fst (diagBig_body P (H, S, getAijBig P H)))"
proof -
  obtain r m where res: "getAijBig P H = (r, m)" by (cases "getAijBig P H") auto
  have len: "length H = N" using sq by (rule square_length)
  have r: "fst r < snd r" "snd r < N" using getAijBig_range [OF _ res] N len by simp_all
  then have "fst r < N" "fst r \<noteq> snd r" by simp_all
  from x1Big_rotation [OF sq this(1) r(2) this(2)] sym
  show ?thesis by (simp add: diagBig_body_def res Let_def)
qed

text \<open>
  C7. One rotation of a symmetric \<open>N \<times> N\<close> working matrix at a pivot \<open>(i, j)\<close> with
  \<open>i < j < N\<close> gives a symmetric \<open>N \<times> N\<close> matrix again, for every angle, in \<open>x1\<close> and, for
  every arithmetic, in \<open>x1Big\<close>; so the body of the convergence loop, which rotates at
  the pivot that the pivot selector returns, keeps the working matrix symmetric.
\<close>

theorem rotation_preserves_symmetry:
  assumes "square N H" and "symmetric N H" and "square N B" and "symmetric N B"
    and "i < j" and "j < N"
  shows "square N (x1 H theta i j) \<and> symmetric N (x1 H theta i j) \<and>
         square N (x1Big P B psi i j) \<and> symmetric N (x1Big P B psi i j) \<and>
         symmetric N (fst (diag_body (H, S, getAij H))) \<and>
         symmetric N (fst (diagBig_body P (B, T, getAijBig P B)))"
proof -
  have i: "i < N" and ij: "i \<noteq> j" and N: "2 \<le> N" using assms(5,6) by simp_all
  show ?thesis
    using x1_rotation [OF assms(1) i assms(6) ij, of theta] assms(2)
      x1Big_rotation [OF assms(3) i assms(6) ij, of P psi] assms(4)
      diag_body_symmetric [OF assms(1,2) N, of S]
      diagBig_body_symmetric [OF assms(3,4) N, of P T]
    by simp
qed

theorem rotation_preserves_symmetry_witness:
  "square 3 [[2, 1, 0], [1, 3, 4], [0, 4, 5 :: real]] \<and>
   symmetric 3 [[2, 1, 0], [1, 3, 4], [0, 4, 5 :: real]] \<and>
   square 3 [[Big 2, Big 1, Big 0], [Big 1, Big 3, Big 4], [Big 0, Big 4, Big 5 :: (real, rat) val]] \<and>
   symmetric 3 [[Big 2, Big 1, Big 0], [Big 1, Big 3, Big 4], [Big 0, Big 4, Big 5 :: (real, rat) val]] \<and>
   (1 :: nat) < 2 \<and> (2 :: nat) < 3 \<and>
   symmetric 3 (x1 [[2, 1, 0], [1, 3, 4], [0, 4, 5]] (pi / 4) 1 2) \<and>
   symmetric 3 (x1Big exact_provider
      [[Big 2, Big 1, Big 0], [Big 1, Big 3, Big 4], [Big 0, Big 4, Big 5]] (Num (pi / 4)) 1 2)"
proof -
  have h: "square 3 [[2, 1, 0], [1, 3, 4], [0, 4, 5 :: real]]"
    "symmetric 3 [[2, 1, 0], [1, 3, 4], [0, 4, 5 :: real]]"
    "square 3 [[Big 2, Big 1, Big 0], [Big 1, Big 3, Big 4], [Big 0, Big 4, Big 5 :: (real, rat) val]]"
    "symmetric 3 [[Big 2, Big 1, Big 0], [Big 1, Big 3, Big 4], [Big 0, Big 4, Big 5 :: (real, rat) val]]"
    by (simp_all add: square_def symmetric_def upt3)
  have ij: "(1 :: nat) < 2" "(2 :: nat) < 3" by simp_all
  show ?thesis
    using rotation_preserves_symmetry [OF h ij, of "pi / 4" exact_provider "Num (pi / 4)"] h
    by simp
qed

text \<open>
  C6, as the code has it. After a rotation at a pivot \<open>(i, j)\<close> with \<open>i < j < N\<close> the
  entries \<open>(i, j)\<close> and \<open>(j, i)\<close> of the working matrix are the native number zero, in
  \<open>x1\<close> and, for every arithmetic, in \<open>x1Big\<close>: \<open>x1Big\<close> assigns the literal \<open>0\<close> too.
\<close>

theorem rotation_zeroes_pivot:
  assumes "square N H" and "square N B" and "i < j" and "j < N"
  shows "x1 H theta i j ! i ! j = 0 \<and> x1 H theta i j ! j ! i = 0 \<and>
         x1Big P B psi i j ! i ! j = Num 0 \<and> x1Big P B psi i j ! j ! i = Num 0"
proof -
  have i: "i < N" and ij: "i \<noteq> j" using assms(3,4) by simp_all
  show ?thesis
    using x1_rotation [OF assms(1) i assms(4) ij, of theta]
      x1Big_rotation [OF assms(2) i assms(4) ij, of P psi]
    by simp
qed

theorem rotation_zeroes_pivot_witness:
  "square 2 [[2, 1], [1, 2 :: real]] \<and>
   square 2 [[Big 2, Big 1], [Big 1, Big 2 :: (real, rat) val]] \<and> (0 :: nat) < 1 \<and> (1 :: nat) < 2 \<and>
   x1 [[2, 1], [1, 2]] (pi / 4) 0 1 ! 0 ! 1 = 0 \<and>
   x1Big exact_provider [[Big 2, Big 1], [Big 1, Big 2]] (Num (pi / 4)) 0 1 ! 1 ! 0 = Num 0"
proof -
  have h: "square 2 [[2, 1], [1, 2 :: real]]"
    "square 2 [[Big 2, Big 1], [Big 1, Big 2 :: (real, rat) val]]"
    by (simp_all add: square_def)
  have ij: "(0 :: nat) < 1" "(1 :: nat) < 2" by simp_all
  show ?thesis
    using rotation_zeroes_pivot [OF h ij, of "pi / 4" exact_provider "Num (pi / 4)"] h
    by simp
qed

text \<open>
  The claim C6 as the spec states it fails in the arbitrary-precision path: on the
  matrix \<open>[[2, 1], [1, 2]]\<close> of \<open>BigNumber\<close> entries, rotated at the pivot \<open>(0, 1)\<close> by the
  angle that \<open>getThetaBig\<close> returns for it, the entry \<open>(0, 1)\<close> is the native number \<open>0\<close>
  and not a \<open>BigNumber\<close>.
\<close>

theorem rotation_zero_is_native:
  "x1Big exact_provider [[Big 2, Big 1], [Big 1, Big 2]]
     (getThetaBig exact_provider (Big 2) (Big 2) (Big 1)) 0 1 ! 0 ! 1 = Num 0 \<and>
   \<not> is_Big (x1Big exact_provider [[Big 2, Big 1], [Big 1, Big 2]]
     (getThetaBig exact_provider (Big 2) (Big 2) (Big 1)) 0 1 ! 0 ! 1)"
proof -
  have h: "square 2 [[Big 2, Big 1], [Big 1, Big 2 :: (real, rat) val]]"
    by (simp add: square_def)
  have "(0 :: nat) < 2" "(1 :: nat) < 2" "(0 :: nat) \<noteq> 1" by simp_all
  from x1Big_rotation [OF h this] show ?thesis by simp
qed

section \<open>The convergence loop\<close>

lemma scan_is_Max:
  fixes f :: "'p \<Rightarrow> real"
  assumes fold: "foldl (\<lambda>st p. if \<bar>snd st\<bar> < f p then (p, f p) else st) (p0, 0) ps = (p, m)"
  shows "m = Max (set (0 # map f ps))"
proof -
  from scan_first_max [OF fold]
  have all: "\<forall>q \<in> set ps. f q \<le> m" and m0: "0 \<le> m"
    and alt: "(p = p0 \<and> m = 0) \<or>
          (\<exists>as bs. ps = as @ p # bs \<and> m = f p \<and> 0 < m \<and> (\<forall>q \<in> set as. f q < m))"
    by auto
  have mem: "m \<in> set (0 # map f ps)" using alt by auto
  have ub: "\<And>y. y \<in> set (0 # map f ps) \<Longrightarrow> y \<le> m" using all m0 by auto
  show ?thesis by (rule Max_eqI [symmetric]) (use mem ub in auto)
qed

lemma getAij_snd: "snd (getAij x) = maxOffDiag x"
proof -
  define f where "f = (\<lambda>p :: nat \<times> nat. \<bar>x ! fst p ! snd p\<bar>)"
  obtain r m where res: "getAij x = (r, m)" by (cases "getAij x") auto
  have step: "(\<lambda>st p. getAij_step x (fst p) st (snd p))
                = (\<lambda>st p. if \<bar>snd st\<bar> < f p then (p, f p) else st)"
    by (simp add: getAij_step_def f_def fun_eq_iff)
  have fold: "foldl (\<lambda>st p. if \<bar>snd st\<bar> < f p then (p, f p) else st) ((0, 1), 0)
                (upper_pairs 0 (length x)) = (r, m)"
    using res by (simp add: getAij_flat step)
  from scan_is_Max [OF fold] show ?thesis by (simp add: res maxOffDiag_def f_def)
qed

lemma maxOffDiag_nonneg: "0 \<le> maxOffDiag x"
  by (simp add: maxOffDiag_def)

lemma maxOffDiagBig_nonneg: "0 \<le> maxOffDiagBig P x"
  by (simp add: maxOffDiagBig_def)

lemma diag_cond_iff:
  assumes "0 < N"
  shows "diag_cond (diag_e0 precision N) (getAij x) = (\<bar>precision / real N\<bar> \<le> maxOffDiag x)"
  using assms maxOffDiag_nonneg [of x] by (simp add: diag_cond_def diag_e0_def getAij_snd)

text \<open>What the loop returns, it returns from a state that fails the loop test.\<close>

lemma diag_while_exit:
  assumes "diag_while e0 st = Some y" and "snd (snd st) = getAij (fst st)"
  shows "\<not> diag_cond e0 (getAij (fst y))"
proof -
  have "snd (snd st) = getAij (fst st) \<longrightarrow> \<not> diag_cond e0 (getAij (fst y))"
  proof (rule diag_while.raw_induct
      [where P = "\<lambda>e0 st y. snd (snd st) = getAij (fst st) \<longrightarrow> \<not> diag_cond e0 (getAij (fst y))",
        OF _ assms(1)])
    fix dw e0 st y
    assume IH: "\<And>e0 st y. dw e0 st = Some y \<Longrightarrow>
        snd (snd st) = getAij (fst st) \<longrightarrow> \<not> diag_cond e0 (getAij (fst y))"
      and eq: "(if diag_cond e0 (snd (snd st)) then dw e0 (diag_body st)
          else Some (fst st, fst (snd st))) = Some y"
    show "snd (snd st) = getAij (fst st) \<longrightarrow> \<not> diag_cond e0 (getAij (fst y))"
    proof (cases "diag_cond e0 (snd (snd st))")
      case True
      then have "dw e0 (diag_body st) = Some y" using eq by simp
      from IH [OF this] show ?thesis
        by (cases st) (simp add: diag_body_def Let_def)
    next
      case False
      then show ?thesis using eq by auto
    qed
  qed
  then show ?thesis using assms(2) by simp
qed

lemma diagBig_while_exit:
  fixes P :: "('b, 'f) provider"
  assumes "diagBig_while P e0 st = Some y" and "snd (snd st) = getAijBig P (fst st)"
  shows "\<not> diagBig_cond P e0 (getAijBig P (fst y))"
proof -
  define Q :: "(('b, 'f) provider \<times> ('b, 'f) val option) \<times>
      ('b, 'f) val list list \<times> ('b, 'f) val list list \<times> ((nat \<times> nat) \<times> ('b, 'f) val)
      \<Rightarrow> ('b, 'f) val list list \<times> ('b, 'f) val list list \<Rightarrow> bool"
    where "Q = (\<lambda>a y. snd (snd (snd a)) = getAijBig (fst (fst a)) (fst (snd a))
      \<longrightarrow> \<not> diagBig_cond (fst (fst a)) (snd (fst a)) (getAijBig (fst (fst a)) (fst y)))"
  have "Q ((P, e0), st) y"
  proof (rule diagBig_while.raw_induct [where Pa = Q, OF _ assms(1)])
    fix dw and P :: "('b, 'f) provider" and e0 st y
    assume IH: "\<And>P e0 st y. dw P e0 st = Some y \<Longrightarrow> Q ((P, e0), st) y"
      and eq: "(if diagBig_cond P e0 (snd (snd st)) then dw P e0 (diagBig_body P st)
          else Some (fst st, fst (snd st))) = Some y"
    show "Q ((P, e0), st) y"
    proof (cases "diagBig_cond P e0 (snd (snd st))")
      case True
      then have "dw P e0 (diagBig_body P st) = Some y" using eq by simp
      from IH [OF this] show ?thesis
        by (cases st) (simp add: Q_def diagBig_body_def Let_def)
    next
      case False
      then show ?thesis using eq by (auto simp: Q_def)
    qed
  qed
  then show ?thesis using assms(2) by (simp add: Q_def)
qed

lemma x1_length: "length (x1 H theta i j) = length H"
proof -
  have a: "\<And>M r c v. length (assign M r c v) = length M" by (simp add: assign_def)
  have w: "\<And>Aki Akj M k. length (x1_write i j Aki Akj M k) = length M"
    by (simp add: x1_write_def a)
  have f: "\<And>Aki Akj M ks. length (foldl (x1_write i j Aki Akj) M ks) = length M"
    subgoal for Aki Akj M ks by (induction ks arbitrary: M) (simp_all add: w)
    done
  show ?thesis by (simp add: x1_def Let_def f a)
qed

lemma diag_loop_unfold:
  assumes "0 < N"
  shows "diag_while (diag_e0 precision N) (x, S, getAij x) =
     (if \<bar>precision / real N\<bar> \<le> maxOffDiag x
      then diag_while (diag_e0 precision N) (diag_body (x, S, getAij x))
      else Some (x, S))"
  by (subst diag_while.simps) (simp add: diag_cond_iff [OF assms])

lemma diag_result:
  assumes N: "0 < length x" and res: "diag x precision = Some (E, V)"
  shows "\<exists>x' S'. diag_while (diag_e0 precision (length x)) (x, identity (length x), getAij x)
             = Some (x', S') \<and>
           maxOffDiag x' < \<bar>precision / real (length x)\<bar> \<and>
           E = fst (sorting (<) (diagonal x') S') \<and> V = snd (sorting (<) (diagonal x') S')"
proof -
  let ?e0 = "diag_e0 precision (length x)"
  obtain x' S' where w: "diag_while ?e0 (x, identity (length x), getAij x) = Some (x', S')"
    and EV: "(E, V) = sorting (<) (diagonal x') S'"
    using res by (auto simp: diag_def Let_def split: option.splits)
  have "\<not> diag_cond ?e0 (getAij (fst (x', S')))"
    using w by (rule diag_while_exit) simp
  then have "maxOffDiag x' < \<bar>precision / real (length x)\<bar>"
    by (simp add: diag_cond_iff [OF N] not_le)
  then show ?thesis using w EV by (metis fst_conv snd_conv)
qed

lemma diag_converged:
  assumes N: "0 < length x" and small: "maxOffDiag x < \<bar>precision / real (length x)\<bar>"
  shows "diag x precision = Some (sorting (<) (diagonal x) (identity (length x)))"
  using small by (simp add: diag_def Let_def diag_loop_unfold [OF N])

lemma maxOffDiag_diagonal:
  assumes "list_all (\<lambda>p. x ! fst p ! snd p = 0) (upper_pairs 0 (length x))"
  shows "maxOffDiag x = 0"
proof -
  show ?thesis
    unfolding maxOffDiag_def by (rule Max_eqI) (use assms in \<open>auto simp: list_all_iff\<close>)
qed

lemma upt2: "[0..<2] = [0, 1]" "[Suc 0..<2] = [1]" "[2..<2] = []"
  by (simp_all add: upt_rec)

lemma upper_pairs_2: "upper_pairs 0 2 = [(0, 1)]"
  by code_simp

lemma upper_pairs_1: "upper_pairs 0 (Suc 0) = []"
  by (simp add: upper_pairs_def)

lemma upper_pairs_3: "upper_pairs 0 3 = [(0, 1), (0, 2), (1, 2)]"
  by code_simp

lemma upper_pairs_Suc: "upper_pairs 0 (Suc (Suc 0)) = [(0, Suc 0)]"
  "upper_pairs 0 (Suc (Suc (Suc 0))) = [(0, Suc 0), (0, Suc (Suc 0)), (Suc 0, Suc (Suc 0))]"
  by (simp_all add: upper_pairs_def upt_rec)

lemma getAij_ex: "getAij [[2, 1], [1, 2]] = ((0, Suc 0), 1)"
  "getAij [[1, 0], [0, 3]] = ((0, 1), 0)"
  by (simp_all add: getAij_def getAij_step_def upt2 Let_def)

lemma identity_2: "identity 2 = [[1, 0], [0, 1]]"
  by (simp add: identity_def upt2 numeral_2_eq_2)

lemma x1_ex: "x1 [[2, 1], [1, 2]] (pi / 4) 0 (Suc 0) = [[1, 0], [0, 3]]"
  by (simp add: x1_def Let_def upt2 assign_def x1_write_def cos_45 sin_45 field_simps)

lemma Sij1_ex:
  "Sij1 [[1, 0], [0, 1]] (pi / 4) 0 (Suc 0) =
     [[sqrt 2 / 2, sqrt 2 / 2], [- (sqrt 2 / 2), sqrt 2 / 2]]"
  by (simp add: Sij1_def Let_def upt2 assign_def Sij1_write_def cos_45 sin_45)

lemma diag_body_ex:
  "diag_body ([[2, 1], [1, 2]], identity 2, getAij [[2, 1], [1, 2]]) =
     ([[1, 0], [0, 3]], [[sqrt 2 / 2, sqrt 2 / 2], [- (sqrt 2 / 2), sqrt 2 / 2]], ((0, 1), 0))"
proof -
  have t: "getTheta 2 2 1 = pi / 4" by (simp add: getTheta_def)
  show ?thesis
    by (simp add: diag_body_def getAij_ex identity_2 Let_def t x1_ex Sij1_ex)
qed

lemma maxOffDiag_ex: "maxOffDiag [[2, 1], [1, 2]] = 1" "maxOffDiag [[1, 0], [0, 3]] = 0"
  by (simp_all add: maxOffDiag_def upper_pairs_Suc)

text \<open>
  For native numbers the loop of \<open>diag\<close> tests the maximal off-diagonal magnitude
  (\<open>diag_loop_unfold\<close>), and what \<open>diag\<close> returns is the sorted diagonal of the working
  matrix with which the loop ended, whose maximal off-diagonal magnitude is below
  \<open>|precision / N|\<close> (\<open>diag_result\<close>).
\<close>

lemma identityBig_ex:
  "identityBig 2 = [[Num 1, Num 0], [Num 0, Num 1]]"
  "identityBig 3 = [[Num 1, Num 0, Num 0], [Num 0, Num 1, Num 0], [Num 0, Num 0, Num 1]]"
  by (simp_all add: identityBig_def upt2 upt3 numeral_2_eq_2 numeral_3_eq_3)

lemma getAijBig_ex:
  "getAijBig decimal_provider [[Big 10, Big 0], [Big 0, Big 9]] = ((0, 1), Num 0)"
  "getAijBig decimal_provider
     [[Big 1, Big (9 / 10 ^ 14), Big 5], [Big (9 / 10 ^ 14), Big 2, Big 0], [Big 5, Big 0, Big 3]] =
     ((0, 1), Big (9 / 10 ^ 14))"
  by (simp_all add: getAijBig_def getAijBig_step_def upt2 upt3 Let_def decimal_simps)

lemma diagBig_while_ex1:
  "diagBig_while decimal_provider (diagBig_e0 decimal_provider precision_default 2)
     ([[Big 10, Big 0], [Big 0, Big 9]], identityBig 2, ((0, 1), Num 0)) =
   Some ([[Big 10, Big 0], [Big 0, Big 9]], identityBig 2)"
  by (subst diagBig_while.simps)
     (simp add: diagBig_cond_def diagBig_e0_def precision_default_def decimal_simps)

lemma diagBig_while_ex2:
  "diagBig_while decimal_provider (diagBig_e0 decimal_provider precision_default 3)
     ([[Big 1, Big (9 / 10 ^ 14), Big 5], [Big (9 / 10 ^ 14), Big 2, Big 0], [Big 5, Big 0, Big 3]],
      identityBig 3, ((0, 1), Big (9 / 10 ^ 14))) =
   Some ([[Big 1, Big (9 / 10 ^ 14), Big 5], [Big (9 / 10 ^ 14), Big 2, Big 0], [Big 5, Big 0, Big 3]],
     identityBig 3)"
  by (subst diagBig_while.simps)
     (simp add: diagBig_cond_def diagBig_e0_def precision_default_def decimal_simps)

lemma diagonal_ex:
  "diagonal [[Big 10, Big 0], [Big 0, Big 9 :: (real, rat) val]] = [Big 10, Big 9]"
  "diagonal [[Big 1, Big (9 / 10 ^ 14), Big 5], [Big (9 / 10 ^ 14), Big 2, Big 0],
     [Big 5, Big 0, Big 3 :: (real, rat) val]] = [Big 1, Big 2, Big 3]"
  by (simp_all add: diagonal_def upt2 upt3)

lemma sorting_ex3:
  "sorting (js_lt decimal_provider) [Big 1, Big 2, Big 3]
     [[Num 1, Num 0, Num 0], [Num 0, Num 1, Num 0], [Num 0, Num 0, Num 1]] =
   ([Big 1, Big 2, Big 3], [[Num 1, Num 0, Num 0], [Num 0, Num 1, Num 0], [Num 0, Num 0, Num 1]])"
  by (simp add: sorting_def sorting_min_def splice1_def Let_def upt3 upt2 numeral_3_eq_3
      decimal_simps)

lemma maxOffDiagBig_ex:
  "maxOffDiagBig decimal_provider
     [[Big 1, Big (9 / 10 ^ 14), Big 5], [Big (9 / 10 ^ 14), Big 2, Big 0], [Big 5, Big 0, Big 3]] = 5"
  by (simp add: maxOffDiagBig_def upper_pairs_Suc mag_def decimal_simps)

text \<open>
  C2. The loop of \<open>diagBig\<close> tests the magnitude that \<open>getAijBig\<close> returned, which is
  not the maximal one when two \<open>BigNumber\<close> magnitudes were compared as strings. On the
  \<open>BigNumber\<close> matrix \<open>[[1, 9e-14, 5], [9e-14, 2, 0], [5, 0, 3]]\<close> the selector takes
  \<open>9e-14\<close> at \<open>(0, 1)\<close> and keeps it, \<open>"9e-14" < "5"\<close> being false; \<open>9e-14\<close> is below
  \<open>|precision / N| = 1e-12 / 3\<close>, so the loop ends without a rotation and \<open>diagBig\<close>
  returns the diagonal \<open>1, 2, 3\<close> of the input with the identity as vectors, although the
  maximal off-diagonal magnitude is \<open>5\<close>, which is at least \<open>|precision / N|\<close>. On the
  same numbers the loop of \<open>diag\<close> runs its body.
\<close>

theorem diagBig_exits_unconverged:
  "diagBig_while decimal_provider (diagBig_e0 decimal_provider precision_default 3)
     ([[Big 1, Big (9 / 10 ^ 14), Big 5], [Big (9 / 10 ^ 14), Big 2, Big 0], [Big 5, Big 0, Big 3]],
      identityBig 3,
      getAijBig decimal_provider
        [[Big 1, Big (9 / 10 ^ 14), Big 5], [Big (9 / 10 ^ 14), Big 2, Big 0], [Big 5, Big 0, Big 3]]) =
     Some ([[Big 1, Big (9 / 10 ^ 14), Big 5], [Big (9 / 10 ^ 14), Big 2, Big 0], [Big 5, Big 0, Big 3]],
       identityBig 3) \<and>
   diagBig decimal_provider
     [[Big 1, Big (9 / 10 ^ 14), Big 5], [Big (9 / 10 ^ 14), Big 2, Big 0], [Big 5, Big 0, Big 3]]
     precision_default =
     Some ([Big 1, Big 2, Big 3],
       [[Num 1, Num 0, Num 0], [Num 0, Num 1, Num 0], [Num 0, Num 0, Num 1]]) \<and>
   \<bar>precision_default / 3\<bar> \<le> maxOffDiagBig decimal_provider
     [[Big 1, Big (9 / 10 ^ 14), Big 5], [Big (9 / 10 ^ 14), Big 2, Big 0], [Big 5, Big 0, Big 3]] \<and>
   diag_while (diag_e0 precision_default 3)
     ([[1, 9 / 10 ^ 14, 5], [9 / 10 ^ 14, 2, 0], [5, 0, 3]], identity 3,
      getAij [[1, 9 / 10 ^ 14, 5], [9 / 10 ^ 14, 2, 0], [5, 0, 3]]) =
   diag_while (diag_e0 precision_default 3)
     (diag_body ([[1, 9 / 10 ^ 14, 5], [9 / 10 ^ 14, 2, 0], [5, 0, 3]], identity 3,
      getAij [[1, 9 / 10 ^ 14, 5], [9 / 10 ^ 14, 2, 0], [5, 0, 3]]))"
proof -
  let ?B = "[[Big 1, Big (9 / 10 ^ 14), Big 5], [Big (9 / 10 ^ 14), Big 2, Big 0],
    [Big 5, Big 0, Big 3 :: (real, rat) val]]"
  have a: "diagBig_while decimal_provider (diagBig_e0 decimal_provider precision_default 3)
     (?B, identityBig 3, getAijBig decimal_provider ?B) = Some (?B, identityBig 3)"
    by (simp only: getAijBig_ex diagBig_while_ex2)
  have l: "length ?B = 3" by simp
  have b: "diagBig decimal_provider ?B precision_default =
     Some ([Big 1, Big 2, Big 3],
       [[Num 1, Num 0, Num 0], [Num 0, Num 1, Num 0], [Num 0, Num 0, Num 1]])"
    unfolding diagBig_def Let_def l a
    by (simp add: diagonal_ex(2) identityBig_ex sorting_ex3 del: power_numeral)
  have c: "\<bar>precision_default / 3\<bar> \<le> maxOffDiagBig decimal_provider ?B"
    unfolding maxOffDiagBig_ex by (simp add: precision_default_def)
  have m: "maxOffDiag [[1, 9 / 10 ^ 14, 5], [9 / 10 ^ 14, 2, 0], [5, 0, 3]] = 5"
    by (simp add: maxOffDiag_def upper_pairs_Suc)
  have d: "diag_while (diag_e0 precision_default 3)
     ([[1, 9 / 10 ^ 14, 5], [9 / 10 ^ 14, 2, 0], [5, 0, 3]], identity 3,
      getAij [[1, 9 / 10 ^ 14, 5], [9 / 10 ^ 14, 2, 0], [5, 0, 3]]) =
   diag_while (diag_e0 precision_default 3)
     (diag_body ([[1, 9 / 10 ^ 14, 5], [9 / 10 ^ 14, 2, 0], [5, 0, 3]], identity 3,
      getAij [[1, 9 / 10 ^ 14, 5], [9 / 10 ^ 14, 2, 0], [5, 0, 3]]))"
  proof -
    have "\<bar>precision_default / real 3\<bar>
        \<le> maxOffDiag [[1, 9 / 10 ^ 14, 5], [9 / 10 ^ 14, 2, 0], [5, 0, 3]]"
      unfolding m by (simp add: precision_default_def)
    then show ?thesis
      by (subst diag_loop_unfold) (simp_all only: if_True zero_less_numeral)
  qed
  show ?thesis using b c d unfolding a by (simp only: simp_thms)
qed

text \<open>
  C10. When the maximal off-diagonal magnitude of the \<open>N \<times> N\<close> input, \<open>N > 0\<close>, is
  already below \<open>|precision / N|\<close>, the loop of \<open>diag\<close> returns its initial state without
  running its body, so the pivot of \<open>getAij\<close> is not used, and \<open>diag\<close> returns the sorted
  diagonal of the input with the identity as vectors. With the default precision that is
  the case for every matrix whose strict upper triangle is zero, and so for every
  \<open>1 \<times> 1\<close> matrix, whose result is its entry and \<open>[[1]]\<close>.
\<close>

theorem converged_input_skips_loop:
  assumes "square N x" and "0 < N"
  shows "(maxOffDiag x < \<bar>precision / real N\<bar> \<longrightarrow>
            diag_while (diag_e0 precision N) (x, identity N, getAij x) = Some (x, identity N) \<and>
            diag x precision = Some (sorting (<) (diagonal x) (identity N))) \<and>
         (list_all (\<lambda>p. x ! fst p ! snd p = 0) (upper_pairs 0 N) \<longrightarrow>
            diag x precision_default = Some (sorting (<) (diagonal x) (identity N))) \<and>
         (N = 1 \<longrightarrow> getAij x = ((0, 1), 0) \<and>
            diag x precision_default = Some ([x ! 0 ! 0], [[1]]))"
proof -
  have lx: "length x = N" using assms(1) by (simp add: square_def)
  have Nx: "0 < length x" using assms(2) lx by simp
  have a: "maxOffDiag x < \<bar>precision / real N\<bar> \<longrightarrow>
            diag_while (diag_e0 precision N) (x, identity N, getAij x) = Some (x, identity N) \<and>
            diag x precision = Some (sorting (<) (diagonal x) (identity N))"
    using diag_converged [OF Nx, of precision] diag_loop_unfold [OF assms(2), of precision x "identity N"]
    by (simp add: lx)
  have b: "diag x precision_default = Some (sorting (<) (diagonal x) (identity N))"
    if z: "list_all (\<lambda>p. x ! fst p ! snd p = 0) (upper_pairs 0 N)"
  proof -
    have "maxOffDiag x = 0" using z lx by (simp add: maxOffDiag_diagonal)
    then have "maxOffDiag x < \<bar>precision_default / real (length x)\<bar>"
      using Nx by (simp add: precision_default_def)
    from diag_converged [OF Nx this] show ?thesis by (simp add: lx)
  qed
  have c: "getAij x = ((0, 1), 0) \<and> diag x precision_default = Some ([x ! 0 ! 0], [[1]])"
    if one: "N = 1"
  proof -
    have "list_all (\<lambda>p. x ! fst p ! snd p = 0) (upper_pairs 0 N)"
      using one by (simp add: upper_pairs_def)
    then have "diag x precision_default = Some (sorting (<) (diagonal x) (identity N))"
      by (rule b)
    moreover have "sorting (<) (diagonal x) (identity N) = ([x ! 0 ! 0], [[1]])"
      using one lx
      by (simp add: sorting_def diagonal_def identity_def sorting_min_def splice1_def Let_def)
    moreover have "getAij x = ((0, 1), 0)"
      using one lx by (simp add: getAij_def)
    ultimately show ?thesis by simp
  qed
  show ?thesis using a b c by blast
qed

lemma sorting_identity_3:
  "sorting (<) [1, 1, 1 :: real] [[1, 0, 0], [0, 1, 0], [0, 0, 1 :: real]] =
     ([1, 1, 1], [[1, 0, 0], [0, 1, 0], [0, 0, 1]])"
  by (simp add: sorting_def sorting_min_def splice1_def Let_def)

theorem converged_input_skips_loop_witness:
  "square 1 [[7 :: real]] \<and> (0 :: nat) < 1 \<and>
   diag [[7]] precision_default = Some ([7], [[1]]) \<and>
   square 3 [[1, 0, 0], [0, 1, 0], [0, 0, 1 :: real]] \<and> (0 :: nat) < 3 \<and>
   diag [[1, 0, 0], [0, 1, 0], [0, 0, 1]] precision_default =
     Some ([1, 1, 1], [[1, 0, 0], [0, 1, 0], [0, 0, 1]])"
proof -
  have sq1: "square 1 [[7 :: real]]" and sq3: "square 3 [[1, 0, 0], [0, 1, 0], [0, 0, 1 :: real]]"
    by (simp_all add: square_def)
  have N: "(0 :: nat) < 1" "(0 :: nat) < 3" by simp_all
  have z: "list_all (\<lambda>p. [[1, 0, 0], [0, 1, 0], [0, 0, 1 :: real]] ! fst p ! snd p = 0)
             (upper_pairs 0 3)"
    by (simp add: upper_pairs_3)
  have i3: "identity 3 = [[1, 0, 0], [0, 1, 0], [0, 0, 1]]"
    by (simp add: identity_def upt3 numeral_3_eq_3)
  have d3: "diagonal [[1, 0, 0], [0, 1, 0], [0, 0, 1 :: real]] = [1, 1, 1]"
    by (simp add: diagonal_def)
  have a: "diag [[7]] precision_default = Some ([7], [[1]])"
    using converged_input_skips_loop [OF sq1 N(1), of precision_default] by simp
  have b: "diag [[1, 0, 0], [0, 1, 0], [0, 0, 1]] precision_default =
     Some ([1, 1, 1], [[1, 0, 0], [0, 1, 0], [0, 0, 1]])"
    using converged_input_skips_loop [OF sq3 N(2), of precision_default] z
    by (simp add: i3 d3 sorting_identity_3)
  show ?thesis using sq1 sq3 a b by simp
qed

section \<open>The rotation angle and the square check\<close>

lemma js_le_Num: "js_le P v (Num c) = (js_toNumber P v \<le> c)"
  by (cases v) (simp_all add: js_le_def js_lt_def js_toNumber_def not_less)

text \<open>
  C4. \<open>getTheta\<close> returns \<open>\<pi>/4\<close> when \<open>|ajj - aii| \<le> 1E-14\<close> and
  \<open>0.5 \<cdot> atan(2 \<cdot> aij / (ajj - aii))\<close> otherwise. \<open>getThetaBig\<close> returns the native number
  \<open>\<pi>/4\<close> when the native number of \<open>abs(subtract(ajj, aii))\<close> is at most \<open>1E-14\<close>: the test
  is the native comparison whatever the arithmetic and its comparison of two
  \<open>BigNumber\<close> objects are. Otherwise the angle is computed with the arithmetic's
  \<open>multiplyScalar\<close>, \<open>atan\<close>, \<open>multiply\<close> and \<open>inv\<close>.
\<close>

theorem rotation_angle:
  "getTheta aii ajj aij =
     (if \<bar>ajj - aii\<bar> \<le> 1 / 10 ^ 14 then pi / 4
      else 0.5 * arctan (2 * aij / (ajj - aii))) \<and>
   getThetaBig P vii vjj vij =
     (if js_toNumber P (p_abs P (p_subtract P vjj vii)) \<le> 1 / 10 ^ 14 then Num (pi / 4)
      else p_multiplyScalar P (Num 0.5)
             (p_atan P (p_multiply P (p_multiply P (Num 2) vij)
                (p_inv P (p_subtract P vjj vii)))))"
  by (simp add: getTheta_def getThetaBig_def Let_def js_le_Num)

text \<open>
  C5. When the size of the matrix is not that of a square two-dimensional matrix,
  \<open>eigs\<close> throws the \<open>RangeError\<close> (the spec's \<open>ShapeError\<close>) with the message
  \<open>Matrix must be square (size: \<dots>)\<close>, whatever the element type, the data and the
  arithmetic are: nothing of \<open>checkAndSubmit\<close> is reached. For an array argument this is
  so when the constructor \<open>matrix\<close> returns a matrix of that size.
\<close>

theorem eigs_rejects_non_square:
  assumes "length (mx_size x) \<noteq> 2 \<or> mx_size x ! 0 \<noteq> mx_size x ! 1"
    and "matrix a = Inr (x, h)"
  shows "eigs_Matrix P format h x =
           Some (Inl (RangeError (''Matrix must be square (size: '' @ format (mx_size x) @ '')''))) \<and>
         eigs_Array P format matrix a =
           Some (Inl (RangeError (''Matrix must be square (size: '' @ format (mx_size x) @ '')'')))"
  using assms by (auto simp: eigs_Matrix_def eigs_Array_def Let_def)

theorem eigs_rejects_non_square_witness:
  "mx_size \<lparr>mx_size = [2, 3], mx_datatype = None, mx_getDataType = ''mixed'',
        mx_data = [0, 1]\<rparr> ! 0 \<noteq>
   mx_size \<lparr>mx_size = [2, 3], mx_datatype = None, mx_getDataType = ''mixed'',
        mx_data = [0, 1]\<rparr> ! 1 \<and>
   eigs_Matrix exact_provider (\<lambda>s. ''[2, 3]'')
     [[Num 1, Num 2, Num 3], [Num 4, Num 5, Num 6]]
     \<lparr>mx_size = [2, 3], mx_datatype = None, mx_getDataType = ''mixed'', mx_data = [0, 1]\<rparr> =
     Some (Inl (RangeError ''Matrix must be square (size: [2, 3])'')) \<and>
   eigs_Array exact_provider (\<lambda>s. ''[2, 3]'')
     (\<lambda>a :: real list list. Inr (\<lparr>mx_size = [2, 3], mx_datatype = None, mx_getDataType = ''mixed'',
        mx_data = [0, 1]\<rparr>, map (map Num) a))
     [[1, 2, 3], [4, 5, 6]] =
     Some (Inl (RangeError ''Matrix must be square (size: [2, 3])''))"
proof -
  let ?x = "\<lparr>mx_size = [2, 3], mx_datatype = None, mx_getDataType = ''mixed'', mx_data = [0, 1]\<rparr>"
  let ?m = "\<lambda>a :: real list list. Inr (?x, map (map Num) a) :: error + matrix_obj \<times> (real, rat) store"
  have a: "length (mx_size ?x) \<noteq> 2 \<or> mx_size ?x ! 0 \<noteq> mx_size ?x ! 1" by simp
  have b: "?m [[1, 2, 3], [4, 5, 6]] = Inr (?x, [[Num 1, Num 2, Num 3], [Num 4, Num 5, Num 6]])"
    by simp
  show ?thesis
    using eigs_rejects_non_square [where matrix = ?m and a = "[[1, 2, 3], [4, 5, 6]]"
        and P = exact_provider and format = "\<lambda>s. ''[2, 3]''", OF a b]
    by simp
qed

section \<open>The symmetry check and the submission to the kernels\<close>

lemma set_isSymmetric_pairs: "set (isSymmetric_pairs n) = {(i, j). i \<le> j \<and> j < n}"
  by (force simp: isSymmetric_pairs_def)

lemma isSymmetric_loop_iff:
  "isSymmetric_loop P x ps =
     (if list_all (\<lambda>p. p_equal P (x ! fst p ! snd p) (x ! snd p ! fst p)) ps then Inr ()
      else Inl (TypeError ''Input matrix is not symmetric''))"
  by (induction ps) simp_all

lemma isSymmetric_iff:
  "isSymmetric P x n =
     (if (\<forall>i j. i \<le> j \<and> j < n \<longrightarrow> p_equal P (x ! i ! j) (x ! j ! i)) then Inr ()
      else Inl (TypeError ''Input matrix is not symmetric''))"
proof -
  have "list_all (\<lambda>p. p_equal P (x ! fst p ! snd p) (x ! snd p ! fst p)) (isSymmetric_pairs n)
      = (\<forall>i j. i \<le> j \<and> j < n \<longrightarrow> p_equal P (x ! i ! j) (x ! j ! i))"
    by (auto simp: list_all_iff set_isSymmetric_pairs)
  then show ?thesis by (simp add: isSymmetric_def isSymmetric_loop_iff)
qed

lemma deref_append:
  assumes "valid_rows h x"
  shows "deref (h @ ys) (mx_data x) = deref h (mx_data x)"
  using assms by (auto simp: deref_def valid_rows_def list_all_iff nth_append)

lemma deref_fresh: "deref (h @ d) [length h..<length h + length d] = d"
  by (auto simp: deref_def nth_append intro: nth_equalityI)

lemma deref_copy: "deref (h @ deref h a) [length h..<length h + length a] = deref h a"
  using deref_fresh [of h "deref h a"] by (simp add: deref_def)

lemma toArray_eq:
  "toArray h x = ([length h..<length h + length (mx_data x)], h @ deref h (mx_data x))"
  by (simp add: toArray_def deref_def Let_def)

lemma length_deref: "length (deref h a) = length a"
  by (simp add: deref_def)

lemma store_assign_frame:
  assumes "L \<le> arr ! i"
  shows "take L (store_assign h arr i j v) = take L h \<and>
         length (store_assign h arr i j v) = length h"
  using assms by (simp add: store_assign_def)

lemma convert_step_frame:
  assumes "L \<le> arr ! i" and "L \<le> arr ! j"
  shows "take L (convert_step P arr i h j) = take L h \<and>
         length (convert_step P arr i h j) = length h"
  using assms by (simp add: convert_step_def Let_def store_assign_frame)

lemma convert_row_frame:
  assumes "L \<le> arr ! i" and "\<forall>j \<in> set js. L \<le> arr ! j"
  shows "take L (foldl (convert_step P arr i) h js) = take L h \<and>
         length (foldl (convert_step P arr i) h js) = length h"
  using assms(2)
proof (induction js arbitrary: h)
  case Nil
  show ?case by simp
next
  case (Cons j js)
  then show ?case using convert_step_frame [OF assms(1), of j P h] by simp
qed

lemma convert_frame:
  assumes "\<forall>i < n. L \<le> arr ! i"
  shows "take L (convert P arr n h) = take L h \<and> length (convert P arr n h) = length h"
proof -
  have main: "take L (foldl (\<lambda>h i. foldl (convert_step P arr i) h [i..<n]) h is) = take L h \<and>
        length (foldl (\<lambda>h i. foldl (convert_step P arr i) h [i..<n]) h is) = length h"
    if "set is \<subseteq> {..<n}" for "is"
    using that
  proof (induction "is" arbitrary: h)
    case Nil
    show ?case by simp
  next
    case (Cons i "is")
    have i: "L \<le> arr ! i" using Cons.prems assms by simp
    have js: "\<forall>j \<in> set [i..<n]. L \<le> arr ! j" using assms by simp
    from convert_row_frame [OF i js, of P h] Cons show ?case by simp
  qed
  have sub: "set [0..<n] \<subseteq> {..<n}" by auto
  from main [OF sub] show ?thesis by (simp only: convert_def)
qed

lemma checkAndSubmit_call_unsupported:
  assumes "matrix_type x \<noteq> ''number''" "matrix_type x \<noteq> ''BigNumber''"
    "matrix_type x \<noteq> ''Fraction''"
  shows "checkAndSubmit_call P h x n =
     (if matrix_type x = ''mixed''
      then Inl (TypeError ''Mixed matrix element type is not supported'')
      else Inl (TypeError (''Matrix element type not supported ('' @ matrix_type x @ '')'')))"
  using assms by (simp add: checkAndSubmit_call_def matrix_type_def Let_def)

lemma checkAndSubmit_call_asymmetric:
  assumes "matrix_type x = ''number'' \<or> matrix_type x = ''BigNumber'' \<or> matrix_type x = ''Fraction''"
    and "isSymmetric P (deref h (mx_data x)) n = Inl e"
  shows "checkAndSubmit_call P h x n = Inl e"
  using assms
  by (auto simp: checkAndSubmit_call_def matrix_type_def [symmetric] Let_def toArray_eq
      deref_copy)

lemma two_copies:
  assumes v: "valid_rows h x"
  shows "toArray h x =
           ([length h..<length h + length (mx_data x)], h @ deref h (mx_data x))"
    and "deref (h @ deref h (mx_data x)) [length h..<length h + length (mx_data x)] =
           deref h (mx_data x)"
    and "toArray (h @ deref h (mx_data x)) x =
           ([length h + length (mx_data x)..<length h + length (mx_data x) + length (mx_data x)],
            h @ deref h (mx_data x) @ deref h (mx_data x))"
    and "deref (h @ deref h (mx_data x) @ deref h (mx_data x))
           [length h + length (mx_data x)..<length h + length (mx_data x) + length (mx_data x)] =
           deref h (mx_data x)"
proof -
  show "toArray h x = ([length h..<length h + length (mx_data x)], h @ deref h (mx_data x))"
    by (rule toArray_eq)
  show "deref (h @ deref h (mx_data x)) [length h..<length h + length (mx_data x)] =
           deref h (mx_data x)"
    by (rule deref_copy)
  show "toArray (h @ deref h (mx_data x)) x =
           ([length h + length (mx_data x)..<length h + length (mx_data x) + length (mx_data x)],
            h @ deref h (mx_data x) @ deref h (mx_data x))"
    by (simp add: toArray_eq deref_append [OF v] length_deref)
  show "deref (h @ deref h (mx_data x) @ deref h (mx_data x))
           [length h + length (mx_data x)..<length h + length (mx_data x) + length (mx_data x)] =
           deref h (mx_data x)"
    using deref_fresh [of "h @ deref h (mx_data x)" "deref h (mx_data x)"]
    by (simp add: length_deref)
qed

lemma checkAndSubmit_call_number:
  assumes t: "matrix_type x = ''number''" and v: "valid_rows h x"
    and s: "isSymmetric P (deref h (mx_data x)) n = Inr ()"
  shows "checkAndSubmit_call P h x n =
     Inr (Diag (deref h (mx_data x)), h @ deref h (mx_data x) @ deref h (mx_data x))"
  unfolding checkAndSubmit_call_def matrix_type_def [symmetric] t Let_def two_copies(1) [OF v]
  using s by (simp add: two_copies(2,3,4) [OF v])

lemma checkAndSubmit_call_BigNumber:
  assumes t: "matrix_type x = ''BigNumber''" and v: "valid_rows h x"
    and s: "isSymmetric P (deref h (mx_data x)) n = Inr ()"
  shows "checkAndSubmit_call P h x n =
     Inr (DiagBig (deref h (mx_data x)), h @ deref h (mx_data x) @ deref h (mx_data x))"
  unfolding checkAndSubmit_call_def matrix_type_def [symmetric] t Let_def two_copies(1) [OF v]
  using s by (simp add: two_copies(2,3,4) [OF v])

lemma checkAndSubmit_call_Fraction:
  assumes t: "matrix_type x = ''Fraction''" and v: "valid_rows h x"
    and n: "length (mx_data x) = n"
    and s: "isSymmetric P (deref h (mx_data x)) n = Inr ()"
  defines "d \<equiv> deref h (mx_data x)"
  defines "xArr \<equiv> [length h + n..<length h + n + n]"
  shows "checkAndSubmit_call P h x n = Inr (Diag d, convert P xArr n (h @ d @ d) @ d)"
    and "take (length h + n) (convert P xArr n (h @ d @ d)) = h @ d"
    and "deref (convert P xArr n (h @ d @ d) @ d) (mx_data x) = d"
proof -
  have ld: "length d = n" using n by (simp add: d_def length_deref)
  have fr: "\<forall>i < n. length h + n \<le> xArr ! i" by (simp add: xArr_def)
  note cf = convert_frame [OF fr, of P "h @ d @ d"]
  show tk: "take (length h + n) (convert P xArr n (h @ d @ d)) = h @ d"
    using cf ld by simp
  have len: "length (convert P xArr n (h @ d @ d)) = length h + n + n"
    using cf ld by simp
  have "take (length h) (take (length h + n) (convert P xArr n (h @ d @ d))) = h"
    unfolding tk by simp
  then have pre: "take (length h) (convert P xArr n (h @ d @ d)) = h"
    by (simp add: min_def)
  have dc: "deref (convert P xArr n (h @ d @ d)) (mx_data x) = d"
  proof -
    have "\<And>r. r < length h \<Longrightarrow> convert P xArr n (h @ d @ d) ! r = h ! r"
    proof -
      fix r assume r: "r < length h"
      have "take (length h) (convert P xArr n (h @ d @ d)) ! r = h ! r" using pre by simp
      then show "convert P xArr n (h @ d @ d) ! r = h ! r" using r by simp
    qed
    then show ?thesis using v by (auto simp: d_def deref_def valid_rows_def list_all_iff)
  qed
  have vc: "valid_rows (convert P xArr n (h @ d @ d)) x"
    using v len by (auto simp: valid_rows_def list_all_iff)
  show "deref (convert P xArr n (h @ d @ d) @ d) (mx_data x) = d"
    using deref_append [OF vc] dc by simp
  have d1: "deref (h @ d) (mx_data x) = d" using deref_append [OF v] by (simp add: d_def)
  have ta1: "toArray h x = ([length h..<length h + n], h @ d)"
    by (simp add: toArray_eq n d_def)
  have ta2: "toArray (h @ d) x = (xArr, h @ d @ d)"
    by (simp add: toArray_eq n d1 ld xArr_def)
  have ta3: "toArray (convert P xArr n (h @ d @ d)) x =
      ([length h + n + n..<length h + n + n + n], convert P xArr n (h @ d @ d) @ d)"
    by (simp add: toArray_eq n dc len)
  have f1: "deref (h @ d) [length h..<length h + n] = d"
    using deref_fresh [of h d] ld by simp
  have f3: "deref (convert P xArr n (h @ d @ d) @ d) [length h + n + n..<length h + n + n + n] = d"
    using deref_fresh [of "convert P xArr n (h @ d @ d)" d] ld len by simp
  show "checkAndSubmit_call P h x n = Inr (Diag d, convert P xArr n (h @ d @ d) @ d)"
    unfolding checkAndSubmit_call_def matrix_type_def [symmetric] t Let_def ta1
    using s by (simp add: f1 d_def [symmetric] ta2 ta3 f3)
qed

text \<open>
  C8. \<open>isSymmetric\<close> returns normally exactly when \<open>equal(x[i][j], x[j][i])\<close> holds for
  all \<open>i \<le> j < n\<close>, with the \<open>equal\<close> of the arithmetic, and otherwise throws the
  \<open>TypeError\<close> \<open>Input matrix is not symmetric\<close> (the loop stops at the first mismatch; the
  error does not say where). For a matrix of a supported element type whose rows are in
  the store, \<open>checkAndSubmit\<close> passes that error on, and after a successful check it
  submits the data of the matrix as they were and leaves the rows of the matrix as they
  were.
\<close>

theorem validator_checks_symmetry:
  assumes "valid_rows h x"
    and "matrix_type x = ''number'' \<or> matrix_type x = ''BigNumber'' \<or> matrix_type x = ''Fraction''"
    and "length (mx_data x) = n"
  shows "isSymmetric P a n =
           (if (\<forall>i j. i \<le> j \<and> j < n \<longrightarrow> p_equal P (a ! i ! j) (a ! j ! i)) then Inr ()
            else Inl (TypeError ''Input matrix is not symmetric'')) \<and>
         (isSymmetric P (deref h (mx_data x)) n \<noteq> Inr () \<longrightarrow>
            checkAndSubmit_call P h x n = Inl (TypeError ''Input matrix is not symmetric'')) \<and>
         (isSymmetric P (deref h (mx_data x)) n = Inr () \<longrightarrow>
            (\<exists>h'. (checkAndSubmit_call P h x n = Inr (Diag (deref h (mx_data x)), h') \<or>
                   checkAndSubmit_call P h x n = Inr (DiagBig (deref h (mx_data x)), h')) \<and>
                  take (length h) h' = h \<and>
                  deref h' (mx_data x) = deref h (mx_data x)))"
proof (intro conjI impI)
  show "isSymmetric P a n =
           (if (\<forall>i j. i \<le> j \<and> j < n \<longrightarrow> p_equal P (a ! i ! j) (a ! j ! i)) then Inr ()
            else Inl (TypeError ''Input matrix is not symmetric''))"
    by (rule isSymmetric_iff)
next
  assume "isSymmetric P (deref h (mx_data x)) n \<noteq> Inr ()"
  then have "isSymmetric P (deref h (mx_data x)) n = Inl (TypeError ''Input matrix is not symmetric'')"
    by (simp add: isSymmetric_iff split: if_splits)
  then show "checkAndSubmit_call P h x n = Inl (TypeError ''Input matrix is not symmetric'')"
    by (rule checkAndSubmit_call_asymmetric [OF assms(2)])
next
  assume s: "isSymmetric P (deref h (mx_data x)) n = Inr ()"
  let ?d = "deref h (mx_data x)"
  have keep: "deref (h @ ys) (mx_data x) = ?d" for ys
    using deref_append [OF assms(1)] by simp
  from assms(2) consider "matrix_type x = ''number''" | "matrix_type x = ''BigNumber''"
    | "matrix_type x = ''Fraction''" by blast
  then show "\<exists>h'. (checkAndSubmit_call P h x n = Inr (Diag ?d, h') \<or>
                   checkAndSubmit_call P h x n = Inr (DiagBig ?d, h')) \<and>
                  take (length h) h' = h \<and> deref h' (mx_data x) = ?d"
  proof cases
    case 1
    from checkAndSubmit_call_number [OF 1 assms(1) s] keep [of "?d @ ?d"]
    show ?thesis by auto
  next
    case 2
    from checkAndSubmit_call_BigNumber [OF 2 assms(1) s] keep [of "?d @ ?d"]
    show ?thesis by auto
  next
    case 3
    let ?h2 = "convert P [length h + n..<length h + n + n] n (h @ ?d @ ?d)"
    note f = checkAndSubmit_call_Fraction [OF 3 assms(1,3) s]
    have "take (length h) (take (length h + n) ?h2) = h" unfolding f(2) by simp
    then have "take (length h) ?h2 = h" by (simp add: min_def)
    moreover have "length h \<le> length ?h2"
      using arg_cong [OF f(2), of length] by simp
    ultimately have "take (length h) (?h2 @ ?d) = h" by simp
    then show ?thesis using f(1,3) by blast
  qed
qed

theorem validator_checks_symmetry_witness:
  "valid_rows [[Num 1, Num 2], [Num 2, Num 1 :: (real, rat) val]]
     \<lparr>mx_size = [2, 2], mx_datatype = Some ''number'', mx_getDataType = ''number'',
      mx_data = [0, 1]\<rparr> \<and>
   matrix_type \<lparr>mx_size = [2, 2], mx_datatype = Some ''number'', mx_getDataType = ''number'',
      mx_data = [0, 1]\<rparr> = ''number'' \<and>
   isSymmetric exact_provider [[Num 1, Num 2], [Num 3, Num 4]] 2 =
     Inl (TypeError ''Input matrix is not symmetric'') \<and>
   (\<exists>h'. checkAndSubmit_call exact_provider [[Num 1, Num 2], [Num 2, Num 1]]
      \<lparr>mx_size = [2, 2], mx_datatype = Some ''number'', mx_getDataType = ''number'',
       mx_data = [0, 1]\<rparr> 2 = Inr (Diag [[Num 1, Num 2], [Num 2, Num 1]], h') \<and>
      take 2 h' = [[Num 1, Num 2], [Num 2, Num 1]])"
proof -
  let ?h = "[[Num 1, Num 2], [Num 2, Num 1 :: (real, rat) val]]"
  let ?x = "\<lparr>mx_size = [2, 2], mx_datatype = Some ''number'', mx_getDataType = ''number'',
      mx_data = [0, 1]\<rparr>"
  have v: "valid_rows ?h ?x" by (simp add: valid_rows_def)
  have t: "matrix_type ?x = ''number''" by (simp add: matrix_type_def)
  have t': "matrix_type ?x = ''number'' \<or> matrix_type ?x = ''BigNumber'' \<or>
      matrix_type ?x = ''Fraction''" using t by simp
  have n: "length (mx_data ?x) = 2" by simp
  have d: "deref ?h (mx_data ?x) = ?h" by (simp add: deref_def)
  have eq: "p_equal exact_provider = (\<lambda>a b. exact_value a = exact_value b)"
    by (simp add: exact_provider_def)
  have bad: "\<not> (\<forall>i j. i \<le> j \<and> j < 2 \<longrightarrow>
      p_equal exact_provider ([[Num 1, Num 2], [Num 3, Num 4]] ! i ! j)
        ([[Num 1, Num 2], [Num 3, Num 4]] ! j ! i))"
  proof
    assume all: "\<forall>i j. i \<le> j \<and> j < 2 \<longrightarrow>
      p_equal exact_provider ([[Num 1, Num 2], [Num 3, Num 4]] ! i ! j)
        ([[Num 1, Num 2], [Num 3, Num 4]] ! j ! i)"
    have "(0 :: nat) \<le> 1 \<and> (1 :: nat) < 2" by simp
    from all [rule_format, OF this] show False by (simp add: eq exact_value_def)
  qed
  have good: "\<forall>i j. i \<le> j \<and> j < 2 \<longrightarrow> p_equal exact_provider (?h ! i ! j) (?h ! j ! i)"
  proof (intro allI impI)
    fix i j :: nat assume "i \<le> j \<and> j < 2"
    then have "(i = 0 \<and> j = 0) \<or> (i = 0 \<and> j = 1) \<or> (i = 1 \<and> j = 1)" by auto
    then show "p_equal exact_provider (?h ! i ! j) (?h ! j ! i)"
      by (auto simp: eq exact_value_def)
  qed
  note c = validator_checks_symmetry [OF v t' n, of exact_provider]
  have a: "isSymmetric exact_provider [[Num 1, Num 2], [Num 3, Num 4]] 2 =
     Inl (TypeError ''Input matrix is not symmetric'')"
    using c [of "[[Num 1, Num 2], [Num 3, Num 4]]"] bad by simp
  have ok: "isSymmetric exact_provider ?h 2 = Inr ()"
    using c [of ?h] good by simp
  have "\<exists>h'. (checkAndSubmit_call exact_provider ?h ?x 2 = Inr (Diag ?h, h') \<or>
              checkAndSubmit_call exact_provider ?h ?x 2 = Inr (DiagBig ?h, h')) \<and>
             take 2 h' = ?h"
    using c [of ?h] ok d by (auto simp: numeral_2_eq_2)
  moreover have "checkAndSubmit_call exact_provider ?h ?x 2 \<noteq> Inr (DiagBig ?h, h')" for h'
    by (simp add: checkAndSubmit_call_def Let_def split: sum.splits prod.splits)
  ultimately have b: "\<exists>h'. checkAndSubmit_call exact_provider ?h ?x 2 = Inr (Diag ?h, h') \<and>
      take 2 h' = ?h" by blast
  show ?thesis using v t a b by blast
qed

text \<open>
  C9. For a matrix of \<open>Fraction\<close> elements that passed the symmetry check, the loop of
  \<open>valueOf\<close> conversions writes only into the rows of the copy \<open>xArr\<close>; the array passed
  to \<open>diag\<close> is the copy made by the next \<open>toArray()\<close>, whose contents are the data of the
  matrix as they were before the loop, and the rows of the matrix are as they were.
\<close>

theorem fraction_conversion_is_discarded:
  assumes "valid_rows h x" and "matrix_type x = ''Fraction''" and "length (mx_data x) = n"
    and "isSymmetric P (deref h (mx_data x)) n = Inr ()"
  shows "(let d = deref h (mx_data x);
              xArr = [length h + n..<length h + n + n];
              h2 = convert P xArr n (h @ d @ d)
          in checkAndSubmit_call P h x n = Inr (Diag d, h2 @ d) \<and>
             take (length h + n) h2 = h @ d \<and>
             deref (h2 @ d) (mx_data x) = d)"
proof -
  note f = checkAndSubmit_call_Fraction [OF assms(2,1,3,4)]
  show ?thesis
    unfolding Let_def using f by simp
qed

lemma convert_ex:
  "convert exact_provider [4..<6] 2
     ([[Frac (1 / 2), Frac (1 / 3)], [Frac (1 / 3), Frac (1 / 4)]] @
      [[Frac (1 / 2), Frac (1 / 3)], [Frac (1 / 3), Frac (1 / 4)]] @
      [[Frac (1 / 2), Frac (1 / 3)], [Frac (1 / 3), Frac (1 / 4)]]) =
   [[Frac (1 / 2), Frac (1 / 3)], [Frac (1 / 3), Frac (1 / 4)],
    [Frac (1 / 2), Frac (1 / 3)], [Frac (1 / 3), Frac (1 / 4)],
    [Num (1 / 2), Num (1 / 3)], [Num (1 / 3), Num (1 / 4)]]"
proof -
  have u: "[4..<6] = [4, 5 :: nat]" by (simp add: upt_rec)
  have v: "p_valueOf exact_provider = (\<lambda>a. Num (exact_value a))"
    by (simp add: exact_provider_def)
  show ?thesis
    unfolding u
    by (simp add: convert_def convert_step_def store_assign_def upt2 Let_def v exact_value_def
        eval_nat_numeral of_rat_divide)
qed

theorem fraction_conversion_is_discarded_witness:
  "valid_rows [[Frac (1 / 2), Frac (1 / 3)], [Frac (1 / 3), Frac (1 / 4) :: (real, rat) val]]
     \<lparr>mx_size = [2, 2], mx_datatype = Some ''Fraction'', mx_getDataType = ''Fraction'',
      mx_data = [0, 1]\<rparr> \<and>
   matrix_type \<lparr>mx_size = [2, 2], mx_datatype = Some ''Fraction'', mx_getDataType = ''Fraction'',
      mx_data = [0, 1]\<rparr> = ''Fraction'' \<and>
   isSymmetric exact_provider [[Frac (1 / 2), Frac (1 / 3)], [Frac (1 / 3), Frac (1 / 4)]] 2 = Inr () \<and>
   checkAndSubmit_call exact_provider [[Frac (1 / 2), Frac (1 / 3)], [Frac (1 / 3), Frac (1 / 4)]]
     \<lparr>mx_size = [2, 2], mx_datatype = Some ''Fraction'', mx_getDataType = ''Fraction'',
      mx_data = [0, 1]\<rparr> 2 =
   Inr (Diag [[Frac (1 / 2), Frac (1 / 3)], [Frac (1 / 3), Frac (1 / 4)]],
     [[Frac (1 / 2), Frac (1 / 3)], [Frac (1 / 3), Frac (1 / 4)],
      [Frac (1 / 2), Frac (1 / 3)], [Frac (1 / 3), Frac (1 / 4)],
      [Num (1 / 2), Num (1 / 3)], [Num (1 / 3), Num (1 / 4)],
      [Frac (1 / 2), Frac (1 / 3)], [Frac (1 / 3), Frac (1 / 4)]])"
proof -
  let ?h = "[[Frac (1 / 2), Frac (1 / 3)], [Frac (1 / 3), Frac (1 / 4) :: (real, rat) val]]"
  let ?x = "\<lparr>mx_size = [2, 2], mx_datatype = Some ''Fraction'', mx_getDataType = ''Fraction'',
      mx_data = [0, 1]\<rparr>"
  have v: "valid_rows ?h ?x" by (simp add: valid_rows_def)
  have t: "matrix_type ?x = ''Fraction''" by (simp add: matrix_type_def)
  have n: "length (mx_data ?x) = 2" by simp
  have d: "deref ?h (mx_data ?x) = ?h" by (simp add: deref_def)
  have eq: "p_equal exact_provider = (\<lambda>a b. exact_value a = exact_value b)"
    by (simp add: exact_provider_def)
  have s: "isSymmetric exact_provider ?h 2 = Inr ()"
    by (simp add: isSymmetric_def isSymmetric_pairs_def upt2 eq)
  have s': "isSymmetric exact_provider (deref ?h (mx_data ?x)) 2 = Inr ()"
    using s d by simp
  have l: "length ?h + 2 = 4" "(4 :: nat) + 2 = 6" by simp_all
  from fraction_conversion_is_discarded [OF v t n s']
  have "checkAndSubmit_call exact_provider ?h ?x 2 =
      Inr (Diag ?h, convert exact_provider [4..<6] 2 (?h @ ?h @ ?h) @ ?h)"
    unfolding Let_def d l by blast
  then show ?thesis using v t s unfolding convert_ex by simp
qed

section \<open>The spectrum sorter is a stable selection sort\<close>

lemma sorting_min_prefix:
  fixes key :: "'a \<Rightarrow> 'k :: linorder"
  assumes "k \<le> length E" and "E \<noteq> []"
  defines "st \<equiv> foldl (\<lambda>st j. if key_lt key (E ! j) (snd st) then (j, E ! j) else st)
                  (0, E ! 0) [0..<k]"
  shows "snd st = E ! fst st \<and> fst st < length E \<and> (k = 0 \<longrightarrow> fst st = 0) \<and>
         (0 < k \<longrightarrow> fst st < k) \<and>
         (\<forall>j < k. key (E ! fst st) \<le> key (E ! j)) \<and>
         (\<forall>j < fst st. key (E ! fst st) < key (E ! j))"
  using assms(1) unfolding st_def
proof (induction k)
  case 0
  show ?case using assms(2) by simp
next
  case (Suc k)
  let ?st = "foldl (\<lambda>st j. if key_lt key (E ! j) (snd st) then (j, E ! j) else st)
               (0, E ! 0) [0..<k]"
  have ih: "snd ?st = E ! fst ?st" "fst ?st < length E" "k = 0 \<longrightarrow> fst ?st = 0"
    "0 < k \<longrightarrow> fst ?st < k"
    "\<forall>j < k. key (E ! fst ?st) \<le> key (E ! j)"
    "\<forall>j < fst ?st. key (E ! fst ?st) < key (E ! j)"
    using Suc by simp_all
  have k: "k < length E" using Suc.prems by simp
  have step: "foldl (\<lambda>st j. if key_lt key (E ! j) (snd st) then (j, E ! j) else st)
        (0, E ! 0) [0..<Suc k]
      = (if key_lt key (E ! k) (snd ?st) then (k, E ! k) else ?st)"
    by simp
  show ?case
  proof (cases "key_lt key (E ! k) (snd ?st)")
    case True
    have lt: "key (E ! k) < key (E ! fst ?st)" using True ih(1) by (simp add: key_lt_def)
    have "\<forall>j < Suc k. key (E ! k) \<le> key (E ! j)"
    proof (intro allI impI)
      fix j assume "j < Suc k"
      then have "j < k \<or> j = k" by auto
      then show "key (E ! k) \<le> key (E ! j)"
        using ih(5) lt by (auto intro: less_imp_le order.trans)
    qed
    moreover have "\<forall>j < k. key (E ! k) < key (E ! j)"
      using ih(5) lt by (auto intro: less_le_trans)
    ultimately show ?thesis unfolding step using True k by simp
  next
    case False
    have ge: "key (E ! fst ?st) \<le> key (E ! k)" using False ih(1) by (simp add: key_lt_def)
    have "\<forall>j < Suc k. key (E ! fst ?st) \<le> key (E ! j)"
    proof (intro allI impI)
      fix j assume "j < Suc k"
      then have "j < k \<or> j = k" by auto
      then show "key (E ! fst ?st) \<le> key (E ! j)" using ih(5) ge by auto
    qed
    moreover have "fst ?st < Suc k" using ih(3,4) by (cases k) auto
    ultimately show ?thesis unfolding step using False ih by simp
  qed
qed

lemma sorting_min_first:
  fixes key :: "'a \<Rightarrow> 'k :: linorder"
  assumes "E \<noteq> []"
  defines "m \<equiv> fst (sorting_min (key_lt key) E)"
  shows "m < length E" and "\<forall>j < length E. key (E ! m) \<le> key (E ! j)"
    and "\<forall>j < m. key (E ! m) < key (E ! j)"
  using sorting_min_prefix [OF order_refl assms(1), of key]
  unfolding m_def sorting_min_def by simp_all

lemma sort_key_first_min:
  fixes f :: "'b \<Rightarrow> 'a :: linorder"
  assumes m: "m < length xs"
    and least: "\<forall>j < length xs. f (xs ! m) \<le> f (xs ! j)"
    and first: "\<forall>j < m. f (xs ! m) < f (xs ! j)"
  shows "sort_key f xs = xs ! m # sort_key f (splice1 m xs)"
proof (rule properties_for_sort_key)
  let ?rest = "take m xs @ drop (Suc m) xs"
  have xs: "xs = take m xs @ xs ! m # drop (Suc m) xs"
    using m by (rule id_take_nth_drop)
  show "mset (xs ! m # sort_key f (splice1 m xs)) = mset xs"
    by (subst (3) xs) (simp add: splice1_def)
  have ge: "\<forall>y \<in> set xs. f (xs ! m) \<le> f y"
    using least by (auto simp: in_set_conv_nth)
  have "set ?rest \<subseteq> set xs"
    by (auto dest: in_set_takeD in_set_dropD)
  then show "sorted (map f (xs ! m # sort_key f (splice1 m xs)))"
    using ge by (auto simp: splice1_def)
  fix k assume "k \<in> set (xs ! m # sort_key f (splice1 m xs))"
  have before: "\<forall>y \<in> set (take m xs). f (xs ! m) < f y"
    using first m by (auto simp: in_set_conv_nth)
  have stable: "filter (\<lambda>x. c = f x) (sort_key f ?rest) = filter (\<lambda>x. c = f x) ?rest" for c
    using sort_key_stable [of f c ?rest] by (simp add: eq_commute)
  have rhs: "filter (\<lambda>x. f k = f x) xs =
      filter (\<lambda>x. f k = f x) (take m xs) @ filter (\<lambda>x. f k = f x) [xs ! m] @
      filter (\<lambda>x. f k = f x) (drop (Suc m) xs)"
    using arg_cong [OF xs, of "filter (\<lambda>x. f k = f x)"] by simp
  show "filter (\<lambda>x. f k = f x) (xs ! m # sort_key f (splice1 m xs)) = filter (\<lambda>x. f k = f x) xs"
  proof (cases "f k = f (xs ! m)")
    case True
    then have "filter (\<lambda>x. f k = f x) (take m xs) = []"
      using before by (auto simp: filter_empty_conv)
    then show ?thesis
      unfolding rhs by (simp add: splice1_def stable True)
  next
    case False
    then show ?thesis
      unfolding rhs by (simp add: splice1_def stable)
  qed
qed

lemma selection_sort_key:
  fixes key :: "'a \<Rightarrow> 'k :: linorder"
  assumes "length R = n"
  shows "selection n (key_lt key) g R Q = Q @ sort_key (\<lambda>r. key (g r)) R"
  using assms
proof (induction n arbitrary: R Q)
  case 0
  then show ?case by simp
next
  case (Suc n)
  let ?m = "fst (sorting_min (key_lt key) (map g R))"
  have ne: "map g R \<noteq> []" using Suc.prems by auto
  note mn = sorting_min_first [OF ne, of key]
  have m: "?m < length R" using mn(1) by simp
  have least: "\<forall>j < length R. key (g (R ! ?m)) \<le> key (g (R ! j))" using mn(2) m by simp
  have first: "\<forall>j < ?m. key (g (R ! ?m)) < key (g (R ! j))" using mn(3) m by simp
  have len: "length (splice1 ?m R) = n" using Suc.prems m by (simp add: splice1_def)
  show ?case
    using Suc.IH [OF len] sort_key_first_min [of ?m R "\<lambda>r. key (g r)", OF m least first]
    by (simp add: Let_def)
qed

lemma splice1_map: "splice1 m (map g R) = map g (splice1 m R)"
  by (simp add: splice1_def take_map drop_map)

lemma sorting_loop_selection:
  fixes key :: "'a \<Rightarrow> 'k :: linorder"
  assumes "length R = n"
  shows "sorting_loop n (key_lt key) (map g R) (map (\<lambda>row. map ((!) row) R) S0)
           (map g Q) (map (\<lambda>row. map ((!) row) Q) S0)
       = (map g (selection n (key_lt key) g R Q),
          map (\<lambda>row. map ((!) row) (selection n (key_lt key) g R Q)) S0)"
  using assms
proof (induction n arbitrary: R Q)
  case 0
  show ?case by simp
next
  case (Suc n)
  let ?lt = "key_lt key"
  let ?m = "fst (sorting_min ?lt (map g R))"
  have ne: "map g R \<noteq> []" using Suc.prems by auto
  have m: "?m < length R" using sorting_min_first(1) [OF ne, of key] by simp
  have len: "length (splice1 ?m R) = n" using Suc.prems m by (simp add: splice1_def)
  have E': "splice1 ?m (map g R) = map g (splice1 ?m R)" by (rule splice1_map)
  have S': "map (splice1 ?m) (map (\<lambda>row. map ((!) row) R) S0)
      = map (\<lambda>row. map ((!) row) (splice1 ?m R)) S0"
    by (simp add: splice1_map)
  have Ef': "map g Q @ [map g R ! ?m] = map g (Q @ [R ! ?m])" using m by simp
  have Sf': "map2 (\<lambda>row r. row @ [r ! ?m]) (map (\<lambda>row. map ((!) row) Q) S0)
        (map (\<lambda>row. map ((!) row) R) S0)
      = map (\<lambda>row. map ((!) row) (Q @ [R ! ?m])) S0"
    using m by (simp add: zip_map_map zip_same_conv_map)
  have "sorting_loop (Suc n) ?lt (map g R) (map (\<lambda>row. map ((!) row) R) S0)
           (map g Q) (map (\<lambda>row. map ((!) row) Q) S0)
      = sorting_loop n ?lt (map g (splice1 ?m R)) (map (\<lambda>row. map ((!) row) (splice1 ?m R)) S0)
           (map g (Q @ [R ! ?m])) (map (\<lambda>row. map ((!) row) (Q @ [R ! ?m])) S0)"
    by (simp only: sorting_loop.simps Let_def E' S' Ef' Sf')
  also have "\<dots> = (map g (selection n ?lt g (splice1 ?m R) (Q @ [R ! ?m])),
      map (\<lambda>row. map ((!) row) (selection n ?lt g (splice1 ?m R) (Q @ [R ! ?m]))) S0)"
    by (rule Suc.IH [OF len])
  also have "selection n ?lt g (splice1 ?m R) (Q @ [R ! ?m]) = selection (Suc n) ?lt g R Q"
    by (simp only: selection.simps Let_def)
  finally show ?case .
qed

lemma sorting_sort_key:
  fixes key :: "'a \<Rightarrow> 'k :: linorder"
  assumes sq: "square (length E) S"
  shows "sorting (key_lt key) E S =
           (map ((!) E) (sorted_positions key E),
            map (\<lambda>row. map ((!) row) (sorted_positions key E)) S)"
proof -
  let ?N = "length E"
  have lS: "length S = ?N" using sq by (simp add: square_def)
  have rows: "map (\<lambda>row. map ((!) row) [0..<?N]) S = S"
  proof -
    have "map ((!) row) [0..<?N] = row" if "row \<in> set S" for row
    proof -
      have "length row = ?N" using that sq by (simp add: square_def list_all_iff)
      then show ?thesis using map_nth [of row] by simp
    qed
    then show ?thesis by (simp add: map_idI)
  qed
  have empty: "map (\<lambda>row. map ((!) row) []) S = replicate ?N []"
    using lS by (simp add: map_replicate_const)
  have tk: "take ?N S = S" using lS by simp
  have E: "map ((!) E) [0..<?N] = E" by (rule map_nth)
  have nil: "map ((!) E) [] = []" by simp
  have "sorting (key_lt key) E S =
      sorting_loop ?N (key_lt key) (map ((!) E) [0..<?N]) (map (\<lambda>row. map ((!) row) [0..<?N]) S)
        (map ((!) E) []) (map (\<lambda>row. map ((!) row) []) S)"
    by (simp only: sorting_def Let_def rows empty tk E nil)
  also have "\<dots> = (map ((!) E) (selection ?N (key_lt key) ((!) E) [0..<?N] []),
      map (\<lambda>row. map ((!) row) (selection ?N (key_lt key) ((!) E) [0..<?N] [])) S)"
    by (rule sorting_loop_selection) simp
  finally show ?thesis by (simp add: selection_sort_key sorted_positions_def)
qed

lemma filter_keeps_order:
  assumes "sorted_wrt R (filter P xs)" and "a < b" and "b < length xs"
    and "P (xs ! a)" and "P (xs ! b)"
  shows "R (xs ! a) (xs ! b)"
proof -
  have a: "a < length xs" using assms(2,3) by simp
  have xs: "xs = take a xs @ xs ! a # drop (Suc a) xs" using a by (rule id_take_nth_drop)
  have eq: "xs ! b = drop (Suc a) xs ! (b - Suc a)" using assms(2,3) by simp
  have "b - Suc a < length (drop (Suc a) xs)" using assms(2,3) by simp
  then have mem: "xs ! b \<in> set (drop (Suc a) xs)"
    unfolding eq by (rule nth_mem)
  have "sorted_wrt R (filter P (take a xs) @ xs ! a # filter P (drop (Suc a) xs))"
    using assms(1,4) arg_cong [OF xs, of "filter P"] by simp
  then have "\<forall>y \<in> set (filter P (drop (Suc a) xs)). R (xs ! a) y"
    by (simp add: sorted_wrt_append)
  then show ?thesis using mem assms(5) by simp
qed

lemma sort_key_positions_stable:
  fixes f :: "nat \<Rightarrow> 'a :: linorder" and N :: nat
  defines "p \<equiv> sort_key f [0..<N]"
  assumes "a < b" and "b < N" and "f (p ! a) = f (p ! b)"
  shows "p ! a < p ! b"
proof -
  have len: "length p = N" by (simp add: p_def)
  have eq: "filter (\<lambda>y. f y = f (p ! a)) p = filter (\<lambda>y. f y = f (p ! a)) [0..<N]"
    unfolding p_def by (rule sort_key_stable)
  have "sorted_wrt (<) (filter (\<lambda>y. f y = f (p ! a)) [0..<N])"
    by (rule sorted_wrt_filter) (rule sorted_wrt_upt)
  then have srt: "sorted_wrt (<) (filter (\<lambda>y. f y = f (p ! a)) p)"
    by (simp only: eq)
  have b: "b < length p" using assms(3) len by simp
  have "f (p ! b) = f (p ! a)" using assms(4) by simp
  with filter_keeps_order [OF srt assms(2) b] show ?thesis by simp
qed

lemma sorting_by_key:
  fixes key :: "'a \<Rightarrow> 'k :: linorder"
  assumes "square (length E) S"
  defines "p \<equiv> sorted_positions key E"
  shows "sorting (key_lt key) E S = (map ((!) E) p, map (\<lambda>row. map ((!) row) p) S)"
    and "mset p = mset [0..<length E]"
    and "\<forall>a b. a < b \<and> b < length E \<and> key (E ! (p ! a)) = key (E ! (p ! b)) \<longrightarrow> p ! a < p ! b"
    and "sorted (map key (fst (sorting (key_lt key) E S)))"
    and "mset (fst (sorting (key_lt key) E S)) = mset E"
proof -
  show res: "sorting (key_lt key) E S = (map ((!) E) p, map (\<lambda>row. map ((!) row) p) S)"
    unfolding p_def using assms(1) by (rule sorting_sort_key)
  show perm: "mset p = mset [0..<length E]" by (simp add: p_def sorted_positions_def)
  show "\<forall>a b. a < b \<and> b < length E \<and> key (E ! (p ! a)) = key (E ! (p ! b)) \<longrightarrow> p ! a < p ! b"
    unfolding p_def sorted_positions_def
    using sort_key_positions_stable [of _ _ "length E" "\<lambda>j. key (E ! j)"] by blast
  have "map key (map ((!) E) p) = map (\<lambda>j. key (E ! j)) (sort_key (\<lambda>j. key (E ! j)) [0..<length E])"
    by (simp add: p_def sorted_positions_def)
  then show "sorted (map key (fst (sorting (key_lt key) E S)))"
    unfolding res fst_conv by (simp only: sorted_sort_key)
  have "mset (map ((!) E) p) = image_mset ((!) E) (mset [0..<length E])"
    by (simp only: mset_map perm)
  also have "\<dots> = mset (map ((!) E) [0..<length E])" by (simp only: mset_map)
  also have "\<dots> = mset E" by (simp only: map_nth)
  finally show "mset (fst (sorting (key_lt key) E S)) = mset E" by (simp add: res)
qed

lemma key_lt_native: "key_lt (\<lambda>v. v) = (<)"
  by (simp add: key_lt_def fun_eq_iff)

text \<open>
  For values that the native \<open><\<close> orders linearly, as it does native numbers, and a
  matching square \<open>S\<close>, \<open>sorting\<close> returns the values of \<open>E\<close> at the positions \<open>p\<close> and, in
  every row of \<open>S\<close>, the entries at the positions \<open>p\<close>, where \<open>p\<close> lists the positions of
  \<open>E\<close> in the order of their values, equal values in the order of their positions: round
  \<open>i\<close> extracts the earliest minimum of what remains. So the values come out ascending,
  they are the values of \<open>E\<close>, and column \<open>i\<close> of the output is the column of \<open>S\<close> that
  stood at the position of the \<open>i\<close>-th value.
\<close>

lemma sorting_native:
  fixes E :: "'a :: linorder list"
  assumes "square (length E) S"
  shows "(let p = sorted_positions (\<lambda>v. v) E in
            sorting (<) E S = (map ((!) E) p, map (\<lambda>row. map ((!) row) p) S) \<and>
            mset p = mset [0..<length E] \<and>
            (\<forall>a b. a < b \<and> b < length E \<and> E ! (p ! a) = E ! (p ! b) \<longrightarrow> p ! a < p ! b)) \<and>
         sorted (fst (sorting (<) E S)) \<and>
         mset (fst (sorting (<) E S)) = mset E \<and>
         (\<forall>k. Suc k < length E \<longrightarrow> fst (sorting (<) E S) ! k \<le> fst (sorting (<) E S) ! Suc k)"
proof -
  note a = sorting_by_key [OF assms(1), of "\<lambda>v. v", unfolded key_lt_native]
  have srt: "sorted (fst (sorting (<) E S))" using a(4) by simp
  have len: "length (fst (sorting (<) E S)) = length E"
    using arg_cong [OF a(5), of size] by simp
  have nth: "\<forall>k. Suc k < length E \<longrightarrow>
      fst (sorting (<) E S) ! k \<le> fst (sorting (<) E S) ! Suc k"
    using srt len by (auto intro: sorted_nth_mono)
  show ?thesis
    unfolding Let_def using a(1,2,3) srt a(5) nth by blast
qed

lemma sorting_ex1:
  "sorting (js_lt decimal_provider) [Big 10, Big 9] [[Num 1, Num 0], [Num 0, Num 1]] =
     ([Big 10, Big 9], [[Num 1, Num 0], [Num 0, Num 1]])"
  by (simp add: sorting_def sorting_min_def splice1_def Let_def upt2 numeral_2_eq_2 decimal_simps)

lemma sorting_ex2:
  "sorting (<) [10, 9 :: real] [[1, 0], [0, 1 :: real]] = ([9, 10], [[0, 1], [1, 0]])"
  by (simp add: sorting_def sorting_min_def splice1_def Let_def upt2 numeral_2_eq_2)

text \<open>
  C1. \<open>diagBig\<close> passes \<open>BigNumber\<close> objects to \<open>sorting\<close>, whose test \<open>E[j] < minE\<close> then
  compares their strings. On the \<open>BigNumber\<close> matrix \<open>[[10, 0], [0, 9]]\<close> the loop of
  \<open>diagBig\<close> is skipped and \<open>sorting\<close> gets \<open>E = [10, 9]\<close> and the identity; \<open>"9" < "10"\<close>
  is false, so the first round extracts \<open>10\<close> and \<open>sorting\<close> returns \<open>[10, 9]\<close> with the
  columns in their places: the values are not ascending, against the \<open>sorted\<close> of the
  function's description. On the native numbers \<open>[10, 9]\<close> it returns \<open>[9, 10]\<close> and
  swaps the columns.
\<close>

theorem sorting_leaves_BigNumbers_unsorted:
  "sorting (js_lt decimal_provider) [Big 10, Big 9] [[Num 1, Num 0], [Num 0, Num 1]] =
     ([Big 10, Big 9], [[Num 1, Num 0], [Num 0, Num 1]]) \<and>
   diagBig decimal_provider [[Big 10, Big 0], [Big 0, Big 9]] precision_default =
     Some ([Big 10, Big 9], [[Num 1, Num 0], [Num 0, Num 1]]) \<and>
   js_toNumber decimal_provider (Big 9) < js_toNumber decimal_provider (Big 10) \<and>
   sorting (<) [10, 9 :: real] [[1, 0], [0, 1 :: real]] = ([9, 10], [[0, 1], [1, 0]])"
proof -
  have l: "length [[Big 10, Big 0], [Big 0, Big 9 :: (real, rat) val]] = 2" by simp
  have "diagBig decimal_provider [[Big 10, Big 0], [Big 0, Big 9]] precision_default =
     Some ([Big 10, Big 9], [[Num 1, Num 0], [Num 0, Num 1]])"
    unfolding diagBig_def Let_def l getAijBig_ex diagBig_while_ex1
    by (simp add: diagonal_ex sorting_ex1 identityBig_ex)
  then show ?thesis
    using sorting_ex1 sorting_ex2
    by (simp add: js_toNumber_def decimal_provider_def exact_provider_def)
qed

end
